theory Spec2Isabelle
  imports Complex_Main "HOL-Library.Multiset"
begin

section \<open>Data model of the orchestration core\<close>

text \<open>
  The commands of \<^verbatim>\<open>CommandType\<close> that the source file posts. The enum itself is
  declared in a header; the constructors are the names used by \<^verbatim>\<open>doCommand\<close> calls.
\<close>

datatype CommandType =
    IDLE | QUIT | FILTER | UPDATE_EXTERNAL | SWAP_BUFFERS | UPLOAD_GRAVITY
  | COMPUTE_DENSITY | SPS | FORCES_ENQUEUE | FORCES_SYNC | FORCES_COMPLETE
  | EULER | EULER_UPLOAD_OBJECTS_CG | DOWNLOAD_NEWNUMPARTS | UPLOAD_NEWNUMPARTS
  | REDUCE_BODIES_FORCES | UPLOAD_OBJECTS_MATRICES | UPLOAD_OBJECTS_VELOCITIES
  | FORCES_UPLOAD_OBJECTS_CG | POSTPROCESS | DUMP | CALCHASH | SORT | REORDER
  | DUMP_CELLS | UPDATE_SEGMENTS | CROP | APPEND_EXTERNAL | BUILDNEIBS
  | IDENTIFY_CORNER_VERTICES | INIT_IO_MASS_VERTEX_COUNT | INIT_IO_MASS
  | DOWNLOAD_IOWATERDEPTH | UPLOAD_IOWATERDEPTH | IMPOSE_OPEN_BOUNDARY_CONDITION
  | SA_CALC_SEGMENT_BOUNDARY_CONDITIONS | SA_CALC_VERTEX_BOUNDARY_CONDITIONS
  | DISABLE_OUTGOING_PARTS | INIT_GAMMA

text \<open>
  \<^verbatim>\<open>flag_t\<close> is a bit mask whose bit values are defined in headers. A mask is modelled
  as the set of the names of its bits: \<^verbatim>\<open>a | b\<close> is union, \<^verbatim>\<open>a & b\<close> (as a truth
  value) is a non-empty intersection, \<^verbatim>\<open>NO_FLAGS\<close> is the empty set.
\<close>

type_synonym flag_t = "string set"

definition NO_FLAGS :: flag_t where
  "NO_FLAGS = {}"

definition has_flag :: "flag_t \<Rightarrow> string \<Rightarrow> bool" where
  "has_flag fl b = (b \<in> fl)"

text \<open>
  How a run of the host code can end abnormally: a C++ exception
  (\<^verbatim>\<open>runtime_error\<close> with its message, \<^verbatim>\<open>DtZeroException\<close>), or a read or write
  outside an array, which C++ leaves undefined and which is not an exception.
\<close>

datatype abort = RuntimeError string | DtZeroException | OutOfBoundsAccess

fun is_exception :: "abort \<Rightarrow> bool" where
  "is_exception (RuntimeError m) = True"
| "is_exception DtZeroException = True"
| "is_exception OutOfBoundsAccess = False"

fun what :: "abort \<Rightarrow> string" where
  "what (RuntimeError m) = m"
| "what DtZeroException = ''DtZeroException''"
| "what OutOfBoundsAccess = ''''"

text \<open>
  Modelled from the spec: the class \<^verbatim>\<open>Synchronizer\<close> is not in the source file. The
  spec's contract (section 4.1): \<^verbatim>\<open>barrier()\<close> is the rendezvous of the participants;
  \<^verbatim>\<open>forceUnlock()\<close> releases all pending and future barrier calls for good. The model
  counts the orchestrator's barrier calls and records the forced unlock.
\<close>

record Synchronizer =
  barrier_calls :: nat
  forced_unlock :: bool

definition sync_barrier :: "Synchronizer \<Rightarrow> Synchronizer" where
  "sync_barrier y = y\<lparr>barrier_calls := Suc (barrier_calls y)\<rparr>"

definition sync_forceUnlock :: "Synchronizer \<Rightarrow> Synchronizer" where
  "sync_forceUnlock y = y\<lparr>forced_unlock := True\<rparr>"

text \<open>
  The calls the orchestrator makes, in order. This list is bookkeeping of the model (the
  source keeps no such log): \<open>Post\<close> records the three assignments that post a
  command, together with the value \<^verbatim>\<open>keep_going\<close> had when they were made;
  \<open>Barrier\<close> and \<open>ForceUnlock\<close> record the calls on the synchronizer;
  \<open>Swap\<close> records a call of \<^verbatim>\<open>particleSwap\<close> with its two indices.
\<close>

datatype event = Post CommandType flag_t real bool | Barrier | ForceUnlock | Swap nat nat

text \<open>
  What the host prints. A line whose arguments matter to a property keeps them (the
  iteration number, particle ids, indices and counts of the \<^verbatim>\<open>printf\<close> call); every
  other line is its text.
\<close>

datatype message =
    Line string
  | RollCallDouble nat nat nat nat
  | RollCallMissing nat nat
  | CountChanged nat nat nat
  | CapacityExceeded nat nat nat
  | RecapDevice nat nat nat
  | AssignedParts nat nat

text \<open>
  \<^verbatim>\<open>GlobalData\<close> (the fields the modelled functions use), together with the members
  of \<^verbatim>\<open>GPUSPH\<close> used by the roll call (\<^verbatim>\<open>m_rcBitmap\<close>, \<^verbatim>\<open>m_rcNotified\<close>,
  \<^verbatim>\<open>m_rcAddrs\<close>), the text written to stdout and stderr (\<open>console\<close>) and the event
  list. Fixed-size counter arrays are functions from the index; host buffers are lists
  (one list per column of \<^verbatim>\<open>s_hBuffers\<close>: the hash column, the info column reduced to
  the particle id, and the remaining columns). \<^verbatim>\<open>uint\<close> values are naturals; \<^verbatim>\<open>float\<close>
  and \<^verbatim>\<open>double\<close> values are reals (no NaN, no infinity).
\<close>

record 'a GlobalData =
  nextCommand :: CommandType
  commandFlags :: flag_t
  extraCommandArg :: real
  keep_going :: bool
  quit_request :: bool
  save_request :: bool
  only_internal :: bool
  particlesCreated :: bool
  particlesCreatedOnNode :: "nat \<Rightarrow> bool"
  createdParticlesIterations :: nat
  iterations :: nat
  t :: real
  dt :: real
  dts :: "nat \<Rightarrow> real"
  totParticles :: nat
  allocatedParticles :: nat
  processParticles :: "nat \<Rightarrow> nat"
  s_hPartsPerDevice :: "nat \<Rightarrow> nat"
  s_hStartPerDevice :: "nat \<Rightarrow> nat"
  s_hDeviceMap :: "nat list"
  BUFFER_HASH :: "nat list"
  BUFFER_INFO :: "nat list"
  otherBuffers :: "'a list list"
  numInternalParticles :: "nat \<Rightarrow> nat"
  threadSynchronizer :: Synchronizer
  m_rcBitmap :: "nat \<Rightarrow> bool"
  m_rcNotified :: "nat \<Rightarrow> bool"
  m_rcAddrs :: "nat \<Rightarrow> nat"
  console :: "message list"
  events :: "event list"

text \<open>
  What the workers may change in the shared state while they execute a posted command,
  between the two barriers of \<^verbatim>\<open>doCommand\<close>: the liveness flag, their own particle
  counts and time steps, the particle-creation flags, and the host copy of the info
  buffer (filled by \<^verbatim>\<open>DUMP\<close>). The workers are external: their behaviour is a parameter
  \<open>W\<close> of the model, a function from the shared state they see to these values.
\<close>

record worker_result =
  w_keep_going :: bool
  w_numInternalParticles :: "nat \<Rightarrow> nat"
  w_dts :: "nat \<Rightarrow> real"
  w_particlesCreatedOnNode :: "nat \<Rightarrow> bool"
  w_BUFFER_INFO :: "nat list"

type_synonym 'a workers = "'a GlobalData \<Rightarrow> worker_result"

definition run_workers :: "'a workers \<Rightarrow> 'a GlobalData \<Rightarrow> 'a GlobalData" where
  "run_workers W g =
     g\<lparr>keep_going := w_keep_going (W g),
       numInternalParticles := w_numInternalParticles (W g),
       dts := w_dts (W g),
       particlesCreatedOnNode := w_particlesCreatedOnNode (W g),
       BUFFER_INFO := w_BUFFER_INFO (W g)\<rparr>"

text \<open>A host procedure: it changes the state and returns normally or aborts.\<close>

type_synonym 'a proc = "'a GlobalData \<Rightarrow> abort option \<times> 'a GlobalData"

definition skip :: "'a proc" where
  "skip g = (None, g)"

definition throw :: "abort \<Rightarrow> 'a proc" where
  "throw e g = (Some e, g)"

definition host :: "('a GlobalData \<Rightarrow> 'a GlobalData) \<Rightarrow> 'a proc" where
  "host f g = (None, f g)"

definition seq :: "'a proc \<Rightarrow> 'a proc \<Rightarrow> 'a proc" where
  "seq p q g = (case p g of (Some e, g') \<Rightarrow> (Some e, g') | (None, g') \<Rightarrow> q g')"

fun block :: "'a proc list \<Rightarrow> 'a proc" where
  "block [] = skip"
| "block (p # ps) = seq p (block ps)"

definition if_then :: "('a GlobalData \<Rightarrow> bool) \<Rightarrow> 'a proc \<Rightarrow> 'a proc" where
  "if_then c p g = (if c g then p g else (None, g))"

definition ifelse :: "('a GlobalData \<Rightarrow> bool) \<Rightarrow> 'a proc \<Rightarrow> 'a proc \<Rightarrow> 'a proc" where
  "ifelse c p q g = (if c g then p g else q g)"

definition printf :: "message \<Rightarrow> 'a GlobalData \<Rightarrow> 'a GlobalData" where
  "printf m g = g\<lparr>console := console g @ [m]\<rparr>"

subsection \<open>The command dispatcher\<close>

definition barrier :: "'a GlobalData \<Rightarrow> 'a GlobalData" where
  "barrier g = g\<lparr>threadSynchronizer := sync_barrier (threadSynchronizer g),
                 events := events g @ [Barrier]\<rparr>"

definition forceUnlock :: "'a GlobalData \<Rightarrow> 'a GlobalData" where
  "forceUnlock g = g\<lparr>threadSynchronizer := sync_forceUnlock (threadSynchronizer g),
                     events := events g @ [ForceUnlock]\<rparr>"

definition post :: "CommandType \<Rightarrow> flag_t \<Rightarrow> real \<Rightarrow> 'a GlobalData \<Rightarrow> 'a GlobalData" where
  "post cmd flags arg g =
     g\<lparr>nextCommand := cmd, commandFlags := flags, extraCommandArg := arg,
       events := events g @ [Post cmd flags arg (keep_going g)]\<rparr>"

text \<open>
  \<^verbatim>\<open>GPUSPH::doCommand\<close>: the three assignments, the barrier that releases the workers,
  the workers' execution of the command, the barrier that waits for them, and the test
  of \<^verbatim>\<open>keep_going\<close>.
\<close>

definition doCommand :: "'a workers \<Rightarrow> CommandType \<Rightarrow> flag_t \<Rightarrow> real \<Rightarrow> 'a proc" where
  "doCommand W cmd flags arg g =
     (let g1 = post cmd flags arg g;
          g2 = barrier g1;
          g3 = run_workers W g2;
          g4 = barrier g3
      in if \<not> keep_going g4
         then (Some (RuntimeError ''GPUSPH aborted by worker thread''), g4)
         else (None, g4))"

text \<open>
  The default value of \<^verbatim>\<open>arg\<close> in the declaration of \<^verbatim>\<open>doCommand\<close> is in a header;
  calls that omit the argument are modelled with this value.
\<close>

definition default_arg :: real where
  "default_arg = 0"

definition doCommand0 :: "'a workers \<Rightarrow> CommandType \<Rightarrow> flag_t \<Rightarrow> 'a proc" where
  "doCommand0 W cmd flags = doCommand W cmd flags default_arg"

text \<open>
  A counting loop \<^verbatim>\<open>for (i = a; i < b; i++) body\<close> runs the body on the indices
  \<open>[a..<b]\<close> in order and stops at the first abort.
\<close>

fun for_loop :: "nat list \<Rightarrow> (nat \<Rightarrow> 's \<Rightarrow> abort option \<times> 's) \<Rightarrow> 's \<Rightarrow> abort option \<times> 's" where
  "for_loop [] body s = (None, s)"
| "for_loop (i # is) body s =
     (case body i s of (Some e, s') \<Rightarrow> (Some e, s') | (None, s') \<Rightarrow> for_loop is body s')"

text \<open>\<^verbatim>\<open>uint\<close> addition wraps around at \<open>2 ^ 32\<close>.\<close>

definition uadd :: "nat \<Rightarrow> nat \<Rightarrow> nat" where
  "uadd a b = (a + b) mod 2 ^ 32"

definition UINT_MAX :: nat where
  "UINT_MAX = 2 ^ 32 - 1"

section \<open>Configuration of a run\<close>

text \<open>
  The node and device layout. \<^verbatim>\<open>MULTI_NODE\<close>, \<^verbatim>\<open>SINGLE_NODE\<close>, \<^verbatim>\<open>MULTI_GPU\<close> and
  \<^verbatim>\<open>MULTI_DEVICE\<close> are macros, the three array sizes are constants, and \<^verbatim>\<open>RANK\<close>,
  \<^verbatim>\<open>DEVICE\<close>, \<^verbatim>\<open>GLOBAL_DEVICE_NUM\<close> and \<^verbatim>\<open>cellHashFromParticleHash\<close> are
  functions, all defined in headers: they are parameters here.
\<close>

record Topology =
  mpi_rank :: nat
  mpi_nodes :: nat
  devices :: nat
  totDevices :: nat
  MULTI_NODE :: bool
  SINGLE_NODE :: bool
  MULTI_GPU :: bool
  MULTI_DEVICE :: bool
  MAX_DEVICES_PER_NODE :: nat
  MAX_NODES_PER_CLUSTER :: nat
  MAX_DEVICES_PER_CLUSTER :: nat
  RANK :: "nat \<Rightarrow> nat"
  DEVICE :: "nat \<Rightarrow> nat"
  GLOBAL_DEVICE_NUM :: "nat \<Rightarrow> nat"
  cellHashFromParticleHash :: "nat \<Rightarrow> nat"

section \<open>The partitioner\<close>

text \<open>
  Modelled from the spec: \<^verbatim>\<open>HostBuffer::swap_elements\<close> is declared in a header. It
  exchanges the two elements of one column (section 4.3: a swap is a full-record swap
  across every parallel buffer). \<^verbatim>\<open>std::swap\<close> on the key array does the same.
\<close>

definition swap_elements :: "nat \<Rightarrow> nat \<Rightarrow> 'b list \<Rightarrow> 'b list" where
  "swap_elements idx1 idx2 xs = xs[idx1 := xs ! idx2, idx2 := xs ! idx1]"

text \<open>\<^verbatim>\<open>GPUSPH::particleSwap\<close>: the same swap in every host buffer.\<close>

definition particleSwap :: "nat \<Rightarrow> nat \<Rightarrow> 'a GlobalData \<Rightarrow> 'a GlobalData" where
  "particleSwap idx1 idx2 g =
     g\<lparr>BUFFER_HASH := swap_elements idx1 idx2 (BUFFER_HASH g),
       BUFFER_INFO := swap_elements idx1 idx2 (BUFFER_INFO g),
       otherBuffers := map (swap_elements idx1 idx2) (otherBuffers g),
       events := events g @ [Swap idx1 idx2]\<rparr>"

text \<open>The local variables of \<^verbatim>\<open>sortParticlesByHash\<close>, with the global data.\<close>

record 'a sort_state =
  gdata :: "'a GlobalData"
  m_hParticleKeys :: "nat list"
  particlesPerGlobalDevice :: "nat \<Rightarrow> nat"
  leftB :: nat
  rightB :: nat
  nextBucketBeginsAt :: nat

text \<open>
  The body of the loop that fills the key array and the counters. The reads of the
  hash buffer and of the device map, and the three counter updates, are checked against
  the sizes of the arrays. A counter cannot wrap around: it is at most
  \<^verbatim>\<open>totParticles\<close>, itself a \<^verbatim>\<open>uint\<close>.
\<close>

definition count_particle :: "Topology \<Rightarrow> nat \<Rightarrow> 'a sort_state \<Rightarrow> abort option \<times> 'a sort_state" where
  "count_particle tp p s =
     (let g = gdata s in
      if length (BUFFER_HASH g) \<le> p \<or> length (m_hParticleKeys s) \<le> p then (Some OutOfBoundsAccess, s)
      else let cellHash = cellHashFromParticleHash tp (BUFFER_HASH g ! p) in
      if length (s_hDeviceMap g) \<le> cellHash then (Some OutOfBoundsAccess, s)
      else let whichGlobalDev = s_hDeviceMap g ! cellHash in
      if MAX_NODES_PER_CLUSTER tp \<le> RANK tp whichGlobalDev
         \<or> MAX_DEVICES_PER_CLUSTER tp \<le> GLOBAL_DEVICE_NUM tp whichGlobalDev
         \<or> (RANK tp whichGlobalDev = mpi_rank tp \<and> MAX_DEVICES_PER_NODE tp \<le> DEVICE tp whichGlobalDev)
      then (Some OutOfBoundsAccess, s)
      else
        (None,
         s\<lparr>m_hParticleKeys := (m_hParticleKeys s)[p := whichGlobalDev],
           particlesPerGlobalDevice :=
             (particlesPerGlobalDevice s)
               (GLOBAL_DEVICE_NUM tp whichGlobalDev :=
                  particlesPerGlobalDevice s (GLOBAL_DEVICE_NUM tp whichGlobalDev) + 1),
           gdata :=
             g\<lparr>processParticles :=
                 (processParticles g)
                   (RANK tp whichGlobalDev := processParticles g (RANK tp whichGlobalDev) + 1),
               s_hPartsPerDevice :=
                 (if RANK tp whichGlobalDev = mpi_rank tp
                  then (s_hPartsPerDevice g)
                         (DEVICE tp whichGlobalDev := s_hPartsPerDevice g (DEVICE tp whichGlobalDev) + 1)
                  else s_hPartsPerDevice g)\<rparr>\<rparr>))"

text \<open>
  The scan \<^verbatim>\<open>while (GLOBAL_DEVICE_NUM(m_hParticleKeys[rightB]) != currentGlobalDevice) rightB--\<close>.
  It has no lower bound: below index 0 the \<^verbatim>\<open>uint\<close> cursor wraps to \<^verbatim>\<open>UINT_MAX\<close>, and
  the next read is outside the key array (which has at most \<^verbatim>\<open>UINT_MAX\<close> elements).
\<close>

fun scanRight :: "Topology \<Rightarrow> nat list \<Rightarrow> nat \<Rightarrow> nat \<Rightarrow> abort + nat" where
  "scanRight tp keys cur 0 =
     (if length keys \<le> 0 then Inl OutOfBoundsAccess
      else if GLOBAL_DEVICE_NUM tp (keys ! 0) \<noteq> cur then Inl OutOfBoundsAccess
      else Inr 0)"
| "scanRight tp keys cur (Suc r) =
     (if length keys \<le> Suc r then Inl OutOfBoundsAccess
      else if GLOBAL_DEVICE_NUM tp (keys ! Suc r) \<noteq> cur then scanRight tp keys cur r
      else Inr (Suc r))"

text \<open>
  The loop \<^verbatim>\<open>while (leftB < nextBucketBeginsAt)\<close> for one bucket. The code has no test
  of \<^verbatim>\<open>rightB <= leftB\<close> and no \<^verbatim>\<open>throw\<close>: after the scan it swaps and goes on.
\<close>

function bucketPass :: "Topology \<Rightarrow> nat \<Rightarrow> 'a sort_state \<Rightarrow> abort option \<times> 'a sort_state" where
  "bucketPass tp currentGlobalDevice s =
     (if leftB s < nextBucketBeginsAt s then
        (if length (m_hParticleKeys s) \<le> leftB s then (Some OutOfBoundsAccess, s)
         else if GLOBAL_DEVICE_NUM tp (m_hParticleKeys s ! leftB s) \<noteq> currentGlobalDevice then
           (case scanRight tp (m_hParticleKeys s) currentGlobalDevice (rightB s) of
              Inl e \<Rightarrow> (Some e, s)
            | Inr r \<Rightarrow>
                bucketPass tp currentGlobalDevice
                  (s\<lparr>rightB := r,
                     gdata := particleSwap (leftB s) r (gdata s),
                     m_hParticleKeys := swap_elements (leftB s) r (m_hParticleKeys s),
                     leftB := leftB s + 1\<rparr>))
         else bucketPass tp currentGlobalDevice (s\<lparr>leftB := leftB s + 1\<rparr>))
      else (None, s))"
  by pat_completeness auto
termination
  by (relation "measure (\<lambda>(tp, c, s). nextBucketBeginsAt s - leftB s)") auto

text \<open>
  The body of \<^verbatim>\<open>for (currentGlobalDevice = 0; currentGlobalDevice < totDevices - 1; ...)\<close>.
  \<^verbatim>\<open>particlesPerGlobalDevice\<close> has \<^verbatim>\<open>MAX_DEVICES_PER_CLUSTER\<close> entries.
\<close>

definition sort_bucket :: "Topology \<Rightarrow> nat \<Rightarrow> nat \<Rightarrow> 'a sort_state \<Rightarrow> abort option \<times> 'a sort_state" where
  "sort_bucket tp maxIdx currentGlobalDevice s =
     (if MAX_DEVICES_PER_CLUSTER tp \<le> currentGlobalDevice then (Some OutOfBoundsAccess, s)
      else bucketPass tp currentGlobalDevice
             (s\<lparr>nextBucketBeginsAt :=
                  nextBucketBeginsAt s + particlesPerGlobalDevice s currentGlobalDevice,
                rightB := maxIdx\<rparr>))"

text \<open>\<^verbatim>\<open>x - 1\<close> on a \<^verbatim>\<open>uint\<close>: \<open>0 - 1\<close> is \<^verbatim>\<open>UINT_MAX\<close>.\<close>

definition upred :: "nat \<Rightarrow> nat" where
  "upred x = (if x = 0 then UINT_MAX else x - 1)"

text \<open>The offsets \<^verbatim>\<open>s_hStartPerDevice\<close> as running sums (shared with \<^verbatim>\<open>updateArrayIndices\<close>).\<close>

definition add_previous_nodes :: "(nat \<Rightarrow> nat) \<Rightarrow> nat list \<Rightarrow> nat \<Rightarrow> nat" where
  "add_previous_nodes pp ns start0 = foldl (\<lambda>acc n. uadd acc (pp n)) start0 ns"

definition shift_devices :: "(nat \<Rightarrow> nat) \<Rightarrow> nat list \<Rightarrow> (nat \<Rightarrow> nat) \<Rightarrow> (nat \<Rightarrow> nat)" where
  "shift_devices parts ds start =
     foldl (\<lambda>st d. st(d := uadd (st (d - 1)) (parts (d - 1)))) start ds"

text \<open>The self-check at the end of \<^verbatim>\<open>sortParticlesByHash\<close>.\<close>

record sort_check =
  monotonic :: bool
  count_c :: bool
  hcount :: "nat \<Rightarrow> nat"

definition device_of_particle :: "Topology \<Rightarrow> 'a GlobalData \<Rightarrow> nat \<Rightarrow> nat" where
  "device_of_particle tp g p = s_hDeviceMap g ! cellHashFromParticleHash tp (BUFFER_HASH g ! p)"

definition check_particle :: "Topology \<Rightarrow> 'a GlobalData \<Rightarrow> sort_check \<Rightarrow> nat \<Rightarrow> sort_check" where
  "check_particle tp g c p =
     (if \<not> monotonic c then c
      else let cdev = device_of_particle tp g p;
               c1 = (if 0 < p \<and> cdev < device_of_particle tp g (p - 1)
                     then c\<lparr>monotonic := False\<rparr> else c)
           in if RANK tp cdev = mpi_rank tp
              then c1\<lparr>hcount := (hcount c1)(DEVICE tp cdev := hcount c1 (DEVICE tp cdev) + 1)\<rparr>
              else c1)"

definition check_device :: "'a GlobalData \<Rightarrow> sort_check \<Rightarrow> nat \<Rightarrow> sort_check" where
  "check_device g c d = (if hcount c d \<noteq> s_hPartsPerDevice g d then c\<lparr>count_c := False\<rparr> else c)"

definition check_sort :: "Topology \<Rightarrow> 'a GlobalData \<Rightarrow> sort_check" where
  "check_sort tp g =
     foldl (check_device g)
       (foldl (check_particle tp g)
          \<lparr>monotonic = True, count_c = True, hcount = (\<lambda>d. 0)\<rparr> [0..<totParticles g])
       [0..<devices tp]"

text \<open>
  \<^verbatim>\<open>GPUSPH::sortParticlesByHash\<close> up to the end of the bucket loop: reset of the
  counters, the key array (\<^verbatim>\<open>new devcount_t[totParticles]\<close>, here filled with 0 before it
  is written), the counting loop, the offsets, and the pass over the buckets.
\<close>

definition sort_prepare :: "Topology \<Rightarrow> 'a GlobalData \<Rightarrow> 'a sort_state" where
  "sort_prepare tp g =
     \<lparr>gdata = g\<lparr>s_hPartsPerDevice := (\<lambda>d. if d < MAX_DEVICES_PER_NODE tp then 0 else s_hPartsPerDevice g d),
                 processParticles := (\<lambda>n. if n < MAX_NODES_PER_CLUSTER tp then 0 else processParticles g n)\<rparr>,
      m_hParticleKeys = replicate (totParticles g) 0,
      particlesPerGlobalDevice = (\<lambda>d. 0),
      leftB = 0, rightB = 0, nextBucketBeginsAt = 0\<rparr>"

definition sort_offsets :: "Topology \<Rightarrow> 'a GlobalData \<Rightarrow> 'a GlobalData" where
  "sort_offsets tp g =
     (let start0 = (if MULTI_NODE tp
                    then add_previous_nodes (processParticles g) [0..<mpi_rank tp] 0 else 0)
      in g\<lparr>s_hStartPerDevice :=
             shift_devices (s_hPartsPerDevice g) [1..<devices tp] ((s_hStartPerDevice g)(0 := start0))\<rparr>)"

definition sort_buckets :: "Topology \<Rightarrow> 'a GlobalData \<Rightarrow> abort option \<times> 'a sort_state" where
  "sort_buckets tp g =
     (case for_loop [0..<totParticles g] (count_particle tp) (sort_prepare tp g) of
        (Some e, s) \<Rightarrow> (Some e, s)
      | (None, s) \<Rightarrow>
          for_loop [0..<upred (totDevices tp)] (sort_bucket tp (upred (totParticles g)))
            (s\<lparr>gdata := sort_offsets tp (gdata s),
               leftB := 0, nextBucketBeginsAt := 0\<rparr>))"

definition print_check :: "Topology \<Rightarrow> 'a GlobalData \<Rightarrow> 'a GlobalData" where
  "print_check tp g =
     (let c = check_sort tp g
      in printf (Line (if monotonic c \<and> count_c c then '' --- array OK'' else '' --- array ERROR'')) g)"

definition print_assigned :: "Topology \<Rightarrow> 'a GlobalData \<Rightarrow> 'a GlobalData" where
  "print_assigned tp g =
     foldl (\<lambda>g' d. printf (AssignedParts d (s_hPartsPerDevice g' d)) g') g [0..<devices tp]"

definition sortParticlesByHash :: "Topology \<Rightarrow> 'a proc" where
  "sortParticlesByHash tp g =
     (case sort_buckets tp g of
        (Some e, s) \<Rightarrow> (Some e, gdata s)
      | (None, s) \<Rightarrow> (None, print_check tp (print_assigned tp (gdata s))))"

section \<open>Invariants of the partitioner, and example inputs\<close>

text \<open>The invariant of one partitioning pass for the bucket \<open>cur\<close> that begins at \<open>b\<close>:
  the keys in \<open>[b, leftB)\<close> are in the bucket, the particles of the bucket still to the
  right of \<open>leftB\<close> are as many as the places left for them, and none is beyond \<open>rightB\<close>.\<close>

definition pass_inv :: "Topology \<Rightarrow> nat \<Rightarrow> nat \<Rightarrow> 'a sort_state \<Rightarrow> bool" where
  "pass_inv tp cur b s \<longleftrightarrow>
     b \<le> leftB s \<and> leftB s \<le> nextBucketBeginsAt s \<and>
     (\<forall>i. b \<le> i \<and> i < leftB s \<longrightarrow> GLOBAL_DEVICE_NUM tp (m_hParticleKeys s ! i) = cur) \<and>
     count_list (map (GLOBAL_DEVICE_NUM tp) (drop (leftB s) (m_hParticleKeys s))) cur
       = nextBucketBeginsAt s - leftB s \<and>
     (\<forall>i. rightB s < i \<and> i < length (m_hParticleKeys s)
          \<longrightarrow> GLOBAL_DEVICE_NUM tp (m_hParticleKeys s ! i) \<noteq> cur) \<and>
     (leftB s < nextBucketBeginsAt s \<longrightarrow> rightB s < length (m_hParticleKeys s))"

text \<open>The array of keys holds, for every particle, the device of its cell.\<close>

definition keys_match :: "Topology \<Rightarrow> 'a sort_state \<Rightarrow> bool" where
  "keys_match tp s \<longleftrightarrow>
     length (m_hParticleKeys s) \<le> length (BUFFER_HASH (gdata s)) \<and>
     (\<forall>p < length (m_hParticleKeys s). m_hParticleKeys s ! p = device_of_particle tp (gdata s) p)"

text \<open>The first \<open>n\<close> elements are permuted, the others are in place.\<close>

definition perm_prefix :: "nat \<Rightarrow> 'b list \<Rightarrow> 'b list \<Rightarrow> bool" where
  "perm_prefix n xs ys \<longleftrightarrow>
     length ys = length xs \<and> mset (take n ys) = mset (take n xs) \<and> drop n ys = drop n xs"

text \<open>Two states differ in the particle buffers and the list of calls only, and the
  hashes of the first \<open>n\<close> particles are permuted.\<close>

definition same_but_buffers :: "nat \<Rightarrow> 'a GlobalData \<Rightarrow> 'a GlobalData \<Rightarrow> bool" where
  "same_but_buffers n g g' \<longleftrightarrow>
     (\<exists>hs is os ev.
        g' = g\<lparr>BUFFER_HASH := hs, BUFFER_INFO := is, otherBuffers := os, events := ev\<rparr>
        \<and> perm_prefix n (BUFFER_HASH g) hs)"

text \<open>What a pass for the bucket \<open>cur\<close> beginning at \<open>b\<close> has done when it ends.\<close>

definition pass_post :: "Topology \<Rightarrow> nat \<Rightarrow> nat \<Rightarrow> 'a sort_state \<Rightarrow> 'a sort_state \<Rightarrow> bool" where
  "pass_post tp cur b s s' \<longleftrightarrow>
     leftB s' = nextBucketBeginsAt s \<and> nextBucketBeginsAt s' = nextBucketBeginsAt s \<and>
     particlesPerGlobalDevice s' = particlesPerGlobalDevice s \<and>
     length (m_hParticleKeys s') = length (m_hParticleKeys s) \<and>
     take b (m_hParticleKeys s') = take b (m_hParticleKeys s) \<and>
     mset (m_hParticleKeys s') = mset (m_hParticleKeys s) \<and>
     (\<forall>i. b \<le> i \<and> i < nextBucketBeginsAt s \<longrightarrow> GLOBAL_DEVICE_NUM tp (m_hParticleKeys s' ! i) = cur) \<and>
     count_list (map (GLOBAL_DEVICE_NUM tp) (drop (nextBucketBeginsAt s) (m_hParticleKeys s'))) cur = 0 \<and>
     keys_match tp s' \<and>
     same_but_buffers (length (m_hParticleKeys s)) (gdata s) (gdata s')"

text \<open>The invariant of the loop over the buckets: the keys before
  \<^verbatim>\<open>nextBucketBeginsAt\<close> are in the buckets below \<open>d\<close>, in order, the others are in the
  buckets from \<open>d\<close> on, and the counters are the counts of the keys.\<close>

definition buckets_inv :: "Topology \<Rightarrow> nat \<Rightarrow> 'a sort_state \<Rightarrow> bool" where
  "buckets_inv tp d s \<longleftrightarrow>
     leftB s = nextBucketBeginsAt s \<and> nextBucketBeginsAt s \<le> length (m_hParticleKeys s) \<and>
     (\<forall>i < nextBucketBeginsAt s. GLOBAL_DEVICE_NUM tp (m_hParticleKeys s ! i) < d) \<and>
     (\<forall>i. nextBucketBeginsAt s \<le> i \<and> i < length (m_hParticleKeys s)
          \<longrightarrow> d \<le> GLOBAL_DEVICE_NUM tp (m_hParticleKeys s ! i)) \<and>
     (\<forall>i j. i \<le> j \<and> j < nextBucketBeginsAt s
          \<longrightarrow> GLOBAL_DEVICE_NUM tp (m_hParticleKeys s ! i) \<le> GLOBAL_DEVICE_NUM tp (m_hParticleKeys s ! j)) \<and>
     (\<forall>c. particlesPerGlobalDevice s c = count_list (map (GLOBAL_DEVICE_NUM tp) (m_hParticleKeys s)) c) \<and>
     keys_match tp s"

text \<open>The bucket of a particle: the global number of the device its cell belongs to.\<close>

definition bucket_of :: "Topology \<Rightarrow> 'a GlobalData \<Rightarrow> nat \<Rightarrow> nat" where
  "bucket_of tp g p = GLOBAL_DEVICE_NUM tp (device_of_particle tp g p)"

text \<open>The particles are in the order of their buckets.\<close>

definition partitioned :: "Topology \<Rightarrow> 'a GlobalData \<Rightarrow> bool" where
  "partitioned tp g \<longleftrightarrow>
     (\<forall>i j. i \<le> j \<and> j < totParticles g \<longrightarrow> bucket_of tp g i \<le> bucket_of tp g j)"

text \<open>A device-map entry names the device \<open>d\<close> of this node.\<close>

definition on_device :: "Topology \<Rightarrow> nat \<Rightarrow> nat \<Rightarrow> bool" where
  "on_device tp d k \<longleftrightarrow> RANK tp k = mpi_rank tp \<and> DEVICE tp k = d"

text \<open>The number of particles whose cell belongs to device \<open>d\<close> of this node.\<close>

definition count_on_device :: "Topology \<Rightarrow> 'a GlobalData \<Rightarrow> nat \<Rightarrow> nat" where
  "count_on_device tp g d =
     length (filter (\<lambda>p. on_device tp d (device_of_particle tp g p)) [0..<totParticles g])"

text \<open>A well-formed input of the partitioner: there is a device, every read of the hash
  buffer and of the device map is in range, and every cell belongs to a device of the
  cluster, within the sizes of the counter arrays.\<close>

definition sort_wf :: "Topology \<Rightarrow> 'a GlobalData \<Rightarrow> bool" where
  "sort_wf tp g \<longleftrightarrow>
     0 < totDevices tp \<and> totDevices tp \<le> MAX_DEVICES_PER_CLUSTER tp \<and>
     totParticles g \<le> length (BUFFER_HASH g) \<and>
     (\<forall>p < totParticles g.
        cellHashFromParticleHash tp (BUFFER_HASH g ! p) < length (s_hDeviceMap g) \<and>
        RANK tp (device_of_particle tp g p) < MAX_NODES_PER_CLUSTER tp \<and>
        GLOBAL_DEVICE_NUM tp (device_of_particle tp g p) < totDevices tp \<and>
        (RANK tp (device_of_particle tp g p) = mpi_rank tp
           \<longrightarrow> DEVICE tp (device_of_particle tp g p) < MAX_DEVICES_PER_NODE tp))"

text \<open>The invariant of the counting loop, before particle \<open>p\<close>.\<close>

definition count_inv :: "Topology \<Rightarrow> 'a GlobalData \<Rightarrow> nat \<Rightarrow> 'a sort_state \<Rightarrow> bool" where
  "count_inv tp g p s \<longleftrightarrow>
     length (m_hParticleKeys s) = totParticles g \<and>
     (\<forall>q < p. m_hParticleKeys s ! q = device_of_particle tp g q) \<and>
     (\<forall>c. particlesPerGlobalDevice s c
           = count_list (map (GLOBAL_DEVICE_NUM tp) (take p (m_hParticleKeys s))) c) \<and>
     (\<forall>d < MAX_DEVICES_PER_NODE tp.
        s_hPartsPerDevice (gdata s) d = length (filter (on_device tp d) (take p (m_hParticleKeys s)))) \<and>
     (\<exists>parts pp. gdata s = g\<lparr>processParticles := pp, s_hPartsPerDevice := parts\<rparr>)"

text \<open>The invariant of the loop over the buckets, with the frame of the whole loop.\<close>

definition buckets_run_inv :: "Topology \<Rightarrow> 'a GlobalData \<Rightarrow> nat list \<Rightarrow> nat \<Rightarrow> 'a sort_state \<Rightarrow> bool" where
  "buckets_run_inv tp g1 K i s \<longleftrightarrow>
     buckets_inv tp i s \<and> length (m_hParticleKeys s) = length K \<and>
     mset (m_hParticleKeys s) = mset K \<and> same_but_buffers (length K) g1 (gdata s)"

text \<open>The invariant of the loop over the buckets on a partitioned input: nothing
  changes.\<close>

definition noop_run_inv :: "Topology \<Rightarrow> 'a GlobalData \<Rightarrow> nat list \<Rightarrow> nat \<Rightarrow> 'a sort_state \<Rightarrow> bool" where
  "noop_run_inv tp g1 K i s \<longleftrightarrow> buckets_inv tp i s \<and> m_hParticleKeys s = K \<and> gdata s = g1"

text \<open>A node with two devices, alone in its cluster; a device-map entry is the device
  number, a hash is the cell.\<close>

definition example_topology :: Topology where
  "example_topology =
     \<lparr>mpi_rank = 0, mpi_nodes = 1, devices = 2, totDevices = 2,
      MULTI_NODE = False, SINGLE_NODE = True, MULTI_GPU = True, MULTI_DEVICE = True,
      MAX_DEVICES_PER_NODE = 8, MAX_NODES_PER_CLUSTER = 32, MAX_DEVICES_PER_CLUSTER = 256,
      RANK = (\<lambda>k. 0), DEVICE = (\<lambda>k. k), GLOBAL_DEVICE_NUM = (\<lambda>k. k),
      cellHashFromParticleHash = (\<lambda>h. h)\<rparr>"

text \<open>Four particles in the cells 1, 0, 1, 0; cell 0 belongs to device 0 and cell 1 to
  device 1.\<close>

definition example_gdata :: "nat GlobalData" where
  "example_gdata =
     \<lparr>nextCommand = IDLE, commandFlags = {}, extraCommandArg = 0,
      keep_going = True, quit_request = False, save_request = False,
      only_internal = False, particlesCreated = False,
      particlesCreatedOnNode = (\<lambda>d. False), createdParticlesIterations = 0,
      iterations = 0, t = 0, dt = 1 / 1000, dts = (\<lambda>d. 1 / 1000),
      totParticles = 4, allocatedParticles = 6,
      processParticles = (\<lambda>n. 0), s_hPartsPerDevice = (\<lambda>d. 0), s_hStartPerDevice = (\<lambda>d. 0),
      s_hDeviceMap = [0, 1],
      BUFFER_HASH = [1, 0, 1, 0], BUFFER_INFO = [0, 1, 2, 3], otherBuffers = [[10, 11, 12, 13]],
      numInternalParticles = (\<lambda>d. 2),
      threadSynchronizer = \<lparr>barrier_calls = 0, forced_unlock = False\<rparr>,
      m_rcBitmap = (\<lambda>i. False), m_rcNotified = (\<lambda>i. False), m_rcAddrs = (\<lambda>i. 0),
      console = [], events = []\<rparr>"

text \<open>The same particles with the cells in order.\<close>

definition example_sorted_gdata :: "nat GlobalData" where
  "example_sorted_gdata = example_gdata\<lparr>BUFFER_HASH := [0, 0, 1, 1]\<rparr>"



section \<open>Problem parameters, options and external collaborators\<close>

text \<open>
  The enums are declared in headers; the constructors are the values the source file
  names, with one more for every other value.
\<close>

datatype SPHFormulation = SPH_GRENIER | SPH_OTHER

datatype ViscosityType = ARTVISC | KINEMATICVISC | DYNAMICVISC | SPSVISC | KEPSVISC

datatype BoundaryType = LJ_BOUNDARY | SA_BOUNDARY | OTHER_BOUNDARY

text \<open>\<^verbatim>\<open>problem->simparams()\<close>: the fields the modelled functions read.\<close>

record SimParams =
  simflags :: flag_t
  buildneibsfreq :: nat
  gcallback :: bool
  sph_formulation :: SPHFormulation
  visctype :: ViscosityType
  boundarytype :: BoundaryType
  numbodies :: nat
  numforcesbodies :: nat

text \<open>\<^verbatim>\<open>clOptions\<close> and \<^verbatim>\<open>gdata->debug\<close>.\<close>

record Options =
  striping :: bool
  nosave :: bool
  maxiter :: nat
  no_leak_warning :: bool
  resume_fname_empty :: bool
  inspect_preforce :: bool
  debug_neibs :: bool
  debug_forces :: bool

text \<open>
  \<^verbatim>\<open>gdata->simframework\<close>: whether a boundary-conditions engine is loaded, the filters
  with their frequencies, the post-processing engines (each with the buffers it updates
  in place and the buffers it writes), and the multi-buffered buffers of the
  allocation policy. A filter or engine type is given by its value as a \<^verbatim>\<open>float\<close>.
\<close>

record Framework =
  hasBCEngine :: bool
  enabledFilters :: "(real \<times> nat) list"
  enabledPostProcess :: "(real \<times> flag_t \<times> flag_t) list"
  multi_buffered :: flag_t

text \<open>
  The collaborators that the loop consults and that are outside the source file: the
  problem's completion and write predicates, the writers that are due at a time (as the
  list of their write frequencies), the network reductions, and the addition of
  \<^verbatim>\<open>double\<close> values (which rounds: \<^verbatim>\<open>t + dt\<close> can be \<^verbatim>\<open>t\<close> for a small non-zero
  \<^verbatim>\<open>dt\<close>). Calls that act only on data outside the model (the problem's callbacks,
  the writers, the performance counters) are left out.
\<close>

record Externals =
  problem_finished :: "real \<Rightarrow> bool"
  problem_need_write :: "real \<Rightarrow> bool"
  Writer_NeedWrite :: "real \<Rightarrow> real list"
  allGatherUints :: "nat \<Rightarrow> (nat \<Rightarrow> nat) \<Rightarrow> (nat \<Rightarrow> nat)"
  networkFloatReduction_MIN :: "real \<Rightarrow> real"
  networkBoolReduction :: "bool \<Rightarrow> bool"
  double_plus :: "real \<Rightarrow> real \<Rightarrow> real"

record config =
  topology :: Topology
  simparams :: SimParams
  clOptions :: Options
  simframework :: Framework
  externals :: Externals

definition FLT_EPSILON :: real where
  "FLT_EPSILON = 1 / 2 ^ 23"

definition inlet_outlet :: "config \<Rightarrow> bool" where
  "inlet_outlet cfg = has_flag (simflags (simparams cfg)) ''ENABLE_INLET_OUTLET''"

section \<open>The roll call\<close>

text \<open>The local variables of \<^verbatim>\<open>rollCallParticles\<close>, with the global data.\<close>

record 'a rollcall =
  rc_gdata :: "'a GlobalData"
  all_normal :: bool
  first_double_warned :: bool
  first_missing_warned :: bool

definition WARN_EVERY_TIME :: bool where
  "WARN_EVERY_TIME = False"

text \<open>
  The three arrays of the roll call are allocated in \<^verbatim>\<open>initialize\<close> with
  \<^verbatim>\<open>allocatedParticles\<close> entries (\<^verbatim>\<open>calloc\<close>: all zero, so nothing is notified at the
  start); an index at or beyond that size is outside them. The info buffer is read at
  \<^verbatim>\<open>part_index\<close>.
\<close>

definition rc_reset :: "nat \<Rightarrow> 'a rollcall \<Rightarrow> abort option \<times> 'a rollcall" where
  "rc_reset part_id r =
     (let g = rc_gdata r in
      if allocatedParticles g \<le> part_id then (Some OutOfBoundsAccess, r)
      else (None, r\<lparr>rc_gdata := g\<lparr>m_rcBitmap := (m_rcBitmap g)(part_id := False),
                                    m_rcAddrs := (m_rcAddrs g)(part_id := UINT_MAX)\<rparr>\<rparr>))"

definition rc_fill :: "nat \<Rightarrow> 'a rollcall \<Rightarrow> abort option \<times> 'a rollcall" where
  "rc_fill part_index r =
     (let g = rc_gdata r in
      if length (BUFFER_INFO g) \<le> part_index then (Some OutOfBoundsAccess, r)
      else let part_id = BUFFER_INFO g ! part_index in
      if allocatedParticles g \<le> part_id then (Some OutOfBoundsAccess, r)
      else
        let r1 =
              (if m_rcBitmap g part_id \<and> \<not> m_rcNotified g part_id then
                 (let r0 =
                        (if WARN_EVERY_TIME \<or> \<not> first_double_warned r
                         then r\<lparr>rc_gdata :=
                                  printf (RollCallDouble (iterations g) part_id
                                            (m_rcAddrs g part_id) part_index) g,
                                first_double_warned := True\<rparr>
                         else r)
                  in r0\<lparr>all_normal := False,
                        rc_gdata := (rc_gdata r0)\<lparr>m_rcNotified :=
                                       (m_rcNotified (rc_gdata r0))(part_id := True)\<rparr>\<rparr>)
               else r);
            g1 = rc_gdata r1
        in (None, r1\<lparr>rc_gdata := g1\<lparr>m_rcBitmap := (m_rcBitmap g1)(part_id := True),
                                       m_rcAddrs := (m_rcAddrs g1)(part_id := part_index)\<rparr>\<rparr>))"

definition rc_missing :: "nat \<Rightarrow> 'a rollcall \<Rightarrow> abort option \<times> 'a rollcall" where
  "rc_missing part_id r =
     (let g = rc_gdata r in
      if allocatedParticles g \<le> part_id then (Some OutOfBoundsAccess, r)
      else if \<not> m_rcBitmap g part_id \<and> \<not> m_rcNotified g part_id then
        (let r0 =
               (if WARN_EVERY_TIME \<or> \<not> first_missing_warned r
                then r\<lparr>rc_gdata := printf (RollCallMissing (iterations g) part_id) g,
                       first_missing_warned := True\<rparr>
                else r)
         in (None, r0\<lparr>rc_gdata := (rc_gdata r0)\<lparr>m_rcNotified :=
                                      (m_rcNotified (rc_gdata r0))(part_id := True)\<rparr>,
                       all_normal := False\<rparr>))
      else (None, r))"

definition rc_recap :: "Topology \<Rightarrow> 'a GlobalData \<Rightarrow> 'a GlobalData" where
  "rc_recap tp g =
     foldl (\<lambda>g' d. printf (RecapDevice d (s_hPartsPerDevice g' d) (s_hStartPerDevice g' d)) g')
       (printf (Line ''Recap of devices after roll call:'') g) [0..<devices tp]"

text \<open>\<^verbatim>\<open>GPUSPH::rollCallParticles\<close>.\<close>

definition rollCallParticles :: "Topology \<Rightarrow> 'a proc" where
  "rollCallParticles tp g =
     (let n = processParticles g (mpi_rank tp);
          r0 = \<lparr>rc_gdata = g, all_normal = True,
                first_double_warned = False, first_missing_warned = False\<rparr>
      in case for_loop [0..<n] rc_reset r0 of
           (Some e, r) \<Rightarrow> (Some e, rc_gdata r)
         | (None, r1) \<Rightarrow>
        (case for_loop [0..<n] rc_fill r1 of
           (Some e, r) \<Rightarrow> (Some e, rc_gdata r)
         | (None, r2) \<Rightarrow>
        (case for_loop [0..<n] rc_missing r2 of
           (Some e, r) \<Rightarrow> (Some e, rc_gdata r)
         | (None, r3) \<Rightarrow>
             (None, if \<not> all_normal r3 then rc_recap tp (rc_gdata r3) else rc_gdata r3))))"

section \<open>Counts and offsets of the devices\<close>

text \<open>
  The first loop of \<^verbatim>\<open>updateArrayIndices\<close>: the count of every device is what its
  worker reports, and \<^verbatim>\<open>processCount\<close> is their \<^verbatim>\<open>uint\<close> sum.
\<close>

definition count_devices :: "Topology \<Rightarrow> 'a GlobalData \<Rightarrow> 'a GlobalData \<times> nat" where
  "count_devices tp g =
     foldl (\<lambda>(g', processCount) d.
              (g'\<lparr>s_hPartsPerDevice := (s_hPartsPerDevice g')(d := numInternalParticles g' d)\<rparr>,
               uadd processCount (numInternalParticles g' d)))
       (g, 0) [0..<devices tp]"

definition update_offsets :: "Topology \<Rightarrow> 'a GlobalData \<Rightarrow> 'a GlobalData" where
  "update_offsets tp g =
     g\<lparr>s_hStartPerDevice :=
         shift_devices (s_hPartsPerDevice g) [1..<devices tp]
           ((s_hStartPerDevice g)(0 := add_previous_nodes (processParticles g) [0..<mpi_rank tp] 0))\<rparr>"

definition newSimulationTotal :: "Topology \<Rightarrow> 'a GlobalData \<Rightarrow> nat" where
  "newSimulationTotal tp g = foldl (\<lambda>acc n. uadd acc (processParticles g n)) 0 [0..<mpi_nodes tp]"

text \<open>
  The warning, with the roll call in single-node mode (\<^verbatim>\<open>doCommand(DUMP, ...)\<close> first,
  which throws when a worker has failed).
\<close>

definition warn_count_changed :: "config \<Rightarrow> 'a workers \<Rightarrow> nat \<Rightarrow> 'a proc" where
  "warn_count_changed cfg W new =
     seq (host (\<lambda>g. printf (CountChanged (iterations g) (totParticles g) new) g))
         (if_then (\<lambda>g. SINGLE_NODE (topology cfg))
            (seq (doCommand0 W DUMP {''BUFFER_INFO'', ''DBLBUFFER_READ''})
                 (rollCallParticles (topology cfg))))"

text \<open>The block of \<^verbatim>\<open>updateArrayIndices\<close> that reconciles \<^verbatim>\<open>totParticles\<close>.\<close>

definition reconcile_total :: "config \<Rightarrow> 'a workers \<Rightarrow> 'a proc" where
  "reconcile_total cfg W g =
     (if mpi_rank (topology cfg) = 0 \<or> inlet_outlet cfg then
        (let new = newSimulationTotal (topology cfg) g in
         if (new < totParticles g \<and> inlet_outlet cfg) \<or> (totParticles g < new \<and> inlet_outlet cfg)
         then (None, g\<lparr>totParticles := new\<rparr>)
         else if new \<noteq> totParticles g \<and> mpi_rank (topology cfg) = 0 then
           seq (if_then (\<lambda>g'. totParticles g' < new \<or> \<not> no_leak_warning (clOptions cfg))
                  (warn_count_changed cfg W new))
               (host (\<lambda>g'. g'\<lparr>totParticles := new\<rparr>)) g
         else (None, g))
      else (None, g))"

definition check_capacity :: "nat \<Rightarrow> 'a GlobalData \<Rightarrow> 'a GlobalData" where
  "check_capacity processCount g =
     (if allocatedParticles g < processCount
      then (printf (CapacityExceeded (iterations g) processCount (allocatedParticles g)) g)
             \<lparr>quit_request := True\<rparr>
      else g)"

text \<open>\<^verbatim>\<open>GPUSPH::updateArrayIndices\<close>.\<close>

definition updateArrayIndices :: "config \<Rightarrow> 'a workers \<Rightarrow> 'a proc" where
  "updateArrayIndices cfg W g =
     (let tp = topology cfg;
          g1 = fst (count_devices tp g);
          processCount = snd (count_devices tp g);
          g2 = g1\<lparr>processParticles := (processParticles g1)(mpi_rank tp := processCount)\<rparr>;
          g3 = (if MULTI_NODE tp
                then g2\<lparr>processParticles :=
                          allGatherUints (externals cfg) processCount (processParticles g2)\<rparr>
                else g2)
      in seq (reconcile_total cfg W) (host (check_capacity processCount)) (update_offsets tp g3))"

section \<open>The command sequences of the simulation\<close>

definition set_only_internal :: "bool \<Rightarrow> 'a proc" where
  "set_only_internal b = host (\<lambda>g. g\<lparr>only_internal := b\<rparr>)"

text \<open>
  \<^verbatim>\<open>GPUSPH::doWrite\<close> and \<^verbatim>\<open>GPUSPH::doCallBacks\<close> act on the writers, the gages, the
  peak-speed members and the variable gravity, none of which is in the model.
\<close>

definition doWrite :: "flag_t \<Rightarrow> 'a proc" where
  "doWrite write_flags = skip"

definition doCallBacks :: "'a proc" where
  "doCallBacks = skip"

definition printStatus :: "'a proc" where
  "printStatus = host (printf (Line ''Simulation time, iteration, dt, parts, maxneibs''))"

text \<open>\<^verbatim>\<open>GPUSPH::buildNeibList\<close> (the scan of the workers' timing data at its end prints
  warnings only and is left out).\<close>

definition buildNeibList :: "config \<Rightarrow> 'a workers \<Rightarrow> 'a proc" where
  "buildNeibList cfg W =
     block
       [set_only_internal False,
        doCommand0 W SWAP_BUFFERS {''BUFFER_POS''},
        doCommand0 W CALCHASH NO_FLAGS,
        doCommand0 W SWAP_BUFFERS {''BUFFER_POS'', ''BUFFER_INFO''},
        doCommand0 W SORT NO_FLAGS,
        doCommand0 W REORDER NO_FLAGS,
        doCommand0 W DOWNLOAD_NEWNUMPARTS NO_FLAGS,
        doCommand0 W SWAP_BUFFERS (multi_buffered (simframework cfg)),
        ifelse (\<lambda>g. MULTI_DEVICE (topology cfg))
          (block
             [doCommand0 W DUMP_CELLS NO_FLAGS,
              doCommand0 W UPDATE_SEGMENTS NO_FLAGS,
              updateArrayIndices cfg W,
              doCommand0 W CROP NO_FLAGS,
              doCommand0 W APPEND_EXTERNAL {''IMPORT_BUFFERS''},
              if_then (\<lambda>g. inlet_outlet cfg) (doCommand0 W UPLOAD_NEWNUMPARTS NO_FLAGS)])
          (updateArrayIndices cfg W),
        set_only_internal True,
        doCommand0 W BUILDNEIBS NO_FLAGS,
        if_then (\<lambda>g. MULTI_DEVICE (topology cfg) \<and> boundarytype (simparams cfg) = SA_BOUNDARY)
          (doCommand0 W UPDATE_EXTERNAL {''BUFFER_VERTPOS''})]"

text \<open>\<^verbatim>\<open>GPUSPH::move_bodies\<close> (the sums, reductions and callbacks on the body forces act
  on data outside the model).\<close>

definition move_bodies :: "config \<Rightarrow> 'a workers \<Rightarrow> nat \<Rightarrow> 'a proc" where
  "move_bodies cfg W step =
     if_then (\<lambda>g. 0 < numbodies (simparams cfg))
       (block
          [if_then (\<lambda>g. 0 < numforcesbodies (simparams cfg))
             (doCommand0 W REDUCE_BODIES_FORCES NO_FLAGS),
           doCommand0 W UPLOAD_OBJECTS_MATRICES NO_FLAGS,
           doCommand0 W UPLOAD_OBJECTS_VELOCITIES NO_FLAGS,
           if_then (\<lambda>g. numforcesbodies (simparams cfg) \<noteq> 0)
             (doCommand0 W FORCES_UPLOAD_OBJECTS_CG NO_FLAGS)])"

definition sa_swap_all :: flag_t where
  "sa_swap_all = {''BUFFER_VEL'', ''BUFFER_TKE'', ''BUFFER_EPSILON'', ''BUFFER_POS'',
                  ''BUFFER_EULERVEL'', ''BUFFER_GRADGAMMA'', ''BUFFER_VERTICES''}"

text \<open>\<^verbatim>\<open>GPUSPH::saBoundaryConditions\<close> (the reduction of the water depth between the
  download and the upload acts on data outside the model).\<close>

definition saBoundaryConditions :: "config \<Rightarrow> 'a workers \<Rightarrow> flag_t \<Rightarrow> 'a proc" where
  "saBoundaryConditions cfg W cFlag =
     (let multi = (\<lambda>g::'a GlobalData. MULTI_DEVICE (topology cfg));
          init = (\<lambda>g::'a GlobalData. has_flag cFlag ''INITIALIZATION_STEP'');
          io = (\<lambda>g::'a GlobalData. inlet_outlet cfg)
      in block
       [if_then (\<lambda>g. \<not> hasBCEngine (simframework cfg))
          (throw (RuntimeError ''no boundary conditions engine loaded'')),
        if_then init
          (block
             [doCommand0 W SWAP_BUFFERS {''BUFFER_INFO''},
              doCommand0 W IDENTIFY_CORNER_VERTICES NO_FLAGS,
              if_then multi (doCommand0 W UPDATE_EXTERNAL {''BUFFER_INFO'', ''DBLBUFFER_WRITE''}),
              doCommand0 W SWAP_BUFFERS {''BUFFER_INFO''},
              if_then io
                (block
                   [doCommand0 W INIT_IO_MASS_VERTEX_COUNT NO_FLAGS,
                    if_then multi (doCommand0 W UPDATE_EXTERNAL {''BUFFER_FORCES''}),
                    doCommand0 W INIT_IO_MASS NO_FLAGS,
                    if_then multi (doCommand0 W UPDATE_EXTERNAL {''BUFFER_POS'', ''DBLBUFFER_WRITE''}),
                    doCommand0 W SWAP_BUFFERS {''BUFFER_POS''}]),
              doCommand0 W SWAP_BUFFERS sa_swap_all]),
        if_then io
          (block
             [if_then (\<lambda>g. MULTI_DEVICE (topology cfg)
                          \<and> has_flag (simflags (simparams cfg)) ''ENABLE_WATER_DEPTH'')
                (block
                   [doCommand0 W DOWNLOAD_IOWATERDEPTH NO_FLAGS,
                    doCommand0 W UPLOAD_IOWATERDEPTH NO_FLAGS]),
              set_only_internal False,
              doCommand0 W SWAP_BUFFERS {''BUFFER_POS''},
              doCommand0 W IMPOSE_OPEN_BOUNDARY_CONDITION NO_FLAGS,
              doCommand0 W SWAP_BUFFERS {''BUFFER_POS''}]),
        set_only_internal True,
        if_then (\<lambda>g. \<not> has_flag cFlag ''INITIALIZATION_STEP'')
          (doCommand0 W SWAP_BUFFERS {''BUFFER_VERTICES''}),
        doCommand0 W SA_CALC_SEGMENT_BOUNDARY_CONDITIONS cFlag,
        if_then multi
          (doCommand0 W UPDATE_EXTERNAL {''POST_SA_SEGMENT_UPDATE_BUFFERS'', ''DBLBUFFER_WRITE''}),
        doCommand0 W SA_CALC_VERTEX_BOUNDARY_CONDITIONS cFlag,
        if_then multi
          (doCommand0 W UPDATE_EXTERNAL {''POST_SA_VERTEX_UPDATE_BUFFERS'', ''DBLBUFFER_WRITE''}),
        if_then (\<lambda>g. inlet_outlet cfg \<and> has_flag cFlag ''INTEGRATOR_STEP_2'')
          (block
             [doCommand0 W DISABLE_OUTGOING_PARTS NO_FLAGS,
              if_then multi
                (doCommand0 W UPDATE_EXTERNAL {''BUFFER_POS'', ''BUFFER_VERTICES'', ''DBLBUFFER_WRITE''})]),
        if_then init
          (block
             [doCommand0 W SWAP_BUFFERS sa_swap_all,
              if_then (\<lambda>g. resume_fname_empty (clOptions cfg))
                (block
                   [doCommand0 W SWAP_BUFFERS {''BUFFER_BOUNDELEMENTS''},
                    doCommand0 W INIT_GAMMA NO_FLAGS,
                    if_then multi
                      (doCommand0 W UPDATE_EXTERNAL
                         {''BUFFER_GRADGAMMA'', ''BUFFER_BOUNDELEMENTS'', ''DBLBUFFER_WRITE''}),
                    doCommand0 W SWAP_BUFFERS {''BUFFER_GRADGAMMA'', ''BUFFER_BOUNDELEMENTS''}])])])"

text \<open>The buffers that \<^verbatim>\<open>saveParticles\<close> dumps before the post-processing engines add
  theirs.\<close>

definition which_buffers :: "config \<Rightarrow> flag_t" where
  "which_buffers cfg =
     {''BUFFER_POS'', ''BUFFER_VEL'', ''BUFFER_INFO'', ''BUFFER_HASH'', ''DBLBUFFER_READ''}
     \<union> (if debug_neibs (clOptions cfg) then {''BUFFER_NEIBSLIST''} else {})
     \<union> (if debug_forces (clOptions cfg) then {''BUFFER_FORCES''} else {})
     \<union> (if has_flag (simflags (simparams cfg)) ''ENABLE_INTERNAL_ENERGY''
         then {''BUFFER_INTERNAL_ENERGY''} else {})
     \<union> (if boundarytype (simparams cfg) = SA_BOUNDARY
         then {''BUFFER_GRADGAMMA'', ''BUFFER_VERTICES'', ''BUFFER_BOUNDELEMENTS''} else {})
     \<union> (if sph_formulation (simparams cfg) = SPH_GRENIER
         then {''BUFFER_VOLUME'', ''BUFFER_SIGMA''} else {})
     \<union> (if visctype (simparams cfg) = KEPSVISC
         then {''BUFFER_TKE'', ''BUFFER_EPSILON'', ''BUFFER_TURBVISC''} else {})
     \<union> (if visctype (simparams cfg) = SPSVISC then {''BUFFER_SPS_TURBVISC''} else {})
     \<union> (if inlet_outlet cfg \<or> visctype (simparams cfg) = KEPSVISC
         then {''BUFFER_EULERVEL''} else {})"

definition run_postprocess :: "'a workers \<Rightarrow> real \<times> flag_t \<times> flag_t \<Rightarrow> 'a proc" where
  "run_postprocess W flt =
     block
       [set_only_internal True,
        doCommand W POSTPROCESS NO_FLAGS (fst flt),
        doCommand0 W SWAP_BUFFERS (snd (snd flt))]"

text \<open>\<^verbatim>\<open>GPUSPH::saveParticles\<close>.\<close>

definition saveParticles :: "config \<Rightarrow> 'a workers \<Rightarrow> (real \<times> flag_t \<times> flag_t) list \<Rightarrow> flag_t \<Rightarrow> 'a proc" where
  "saveParticles cfg W engines write_flags =
     block
       [block (map (run_postprocess W) engines),
        doCommand0 W DUMP
          (which_buffers cfg \<union> \<Union> (set (map (\<lambda>flt. fst (snd flt) \<union> snd (snd flt)) engines))),
        doWrite write_flags]"

definition run_filter :: "config \<Rightarrow> 'a workers \<Rightarrow> real \<times> nat \<Rightarrow> 'a proc" where
  "run_filter cfg W flt =
     if_then (\<lambda>g. iterations g mod snd flt = 0)
       (block
          [set_only_internal True,
           doCommand W FILTER NO_FLAGS (fst flt),
           if_then (\<lambda>g. MULTI_DEVICE (topology cfg))
             (doCommand0 W UPDATE_EXTERNAL {''BUFFER_VEL'', ''DBLBUFFER_WRITE''}),
           doCommand0 W SWAP_BUFFERS {''BUFFER_VEL''}])"

text \<open>One stage of the integration scheme up to the forces (the part that the two
  stages of the loop body have in common).\<close>

definition compute_forces :: "config \<Rightarrow> 'a workers \<Rightarrow> string \<Rightarrow> 'a proc" where
  "compute_forces cfg W step =
     (let multi = (\<lambda>g::'a GlobalData. MULTI_DEVICE (topology cfg));
          striped = (\<lambda>g::'a GlobalData. striping (clOptions cfg) \<and> MULTI_DEVICE (topology cfg))
      in block
       [if_then (\<lambda>g. sph_formulation (simparams cfg) = SPH_GRENIER)
          (block
             [doCommand0 W SWAP_BUFFERS {''BUFFER_VEL''},
              set_only_internal True,
              doCommand0 W COMPUTE_DENSITY {step},
              if_then multi
                (doCommand0 W UPDATE_EXTERNAL {''BUFFER_SIGMA'', ''BUFFER_VEL'', ''DBLBUFFER_WRITE''}),
              doCommand0 W SWAP_BUFFERS {''BUFFER_VEL''}]),
        if_then (\<lambda>g. visctype (simparams cfg) = SPSVISC)
          (block
             [set_only_internal True,
              doCommand0 W SPS {step},
              if_then multi (doCommand0 W UPDATE_EXTERNAL {''BUFFER_TAU''})]),
        if_then (\<lambda>g. inspect_preforce (clOptions cfg)) (saveParticles cfg W [] {step}),
        set_only_internal True,
        ifelse striped (doCommand0 W FORCES_ENQUEUE {step}) (doCommand0 W FORCES_SYNC {step}),
        if_then multi
          (doCommand0 W UPDATE_EXTERNAL {''POST_FORCES_UPDATE_BUFFERS'', ''DBLBUFFER_WRITE''}),
        if_then striped (doCommand0 W FORCES_COMPLETE {step})])"

definition update_particlesCreated :: "config \<Rightarrow> 'a GlobalData \<Rightarrow> 'a GlobalData" where
  "update_particlesCreated cfg g =
     (let any = foldl (\<lambda>acc d. acc \<or> particlesCreatedOnNode g d)
                  (particlesCreatedOnNode g 0) [1..<devices (topology cfg)];
          created = (if MULTI_NODE (topology cfg)
                     then networkBoolReduction (externals cfg) any else any)
      in g\<lparr>particlesCreated := created,
           createdParticlesIterations :=
             (if created then createdParticlesIterations g + 1 else createdParticlesIterations g)\<rparr>)"

definition euler_update_flags :: flag_t where
  "euler_update_flags =
     {''BUFFER_POS'', ''BUFFER_VEL'', ''BUFFER_EULERVEL'', ''BUFFER_TKE'', ''BUFFER_EPSILON'',
      ''BUFFER_BOUNDELEMENTS'', ''BUFFER_GRADGAMMA'', ''DBLBUFFER_WRITE''}"

text \<open>
  The body of the loop of \<^verbatim>\<open>runSimulation\<close> from its start to the last
  \<^verbatim>\<open>doCommand(SWAP_BUFFERS, POST_COMPUTE_SWAP_BUFFERS)\<close>: the commands of one iteration.
\<close>

definition loop_commands :: "config \<Rightarrow> 'a workers \<Rightarrow> 'a proc" where
  "loop_commands cfg W =
     (let multi = (\<lambda>g::'a GlobalData. MULTI_DEVICE (topology cfg));
          density_sum = (\<lambda>g::'a GlobalData. has_flag (simflags (simparams cfg)) ''ENABLE_DENSITY_SUM'');
          gravity = (\<lambda>g::'a GlobalData. gcallback (simparams cfg));
          sa = (\<lambda>g::'a GlobalData. boundarytype (simparams cfg) = SA_BOUNDARY)
      in block
       [if_then (\<lambda>g. iterations g mod buildneibsfreq (simparams cfg) = 0 \<or> particlesCreated g)
          (buildNeibList cfg W),
        if_then (\<lambda>g. 0 < iterations g)
          (block (map (run_filter cfg W) (enabledFilters (simframework cfg)))),
        if_then gravity (block [doCallBacks, doCommand0 W UPLOAD_GRAVITY NO_FLAGS]),
        compute_forces cfg W ''INTEGRATOR_STEP_1'',
        doCommand0 W SWAP_BUFFERS {''BUFFER_BOUNDELEMENTS''},
        move_bodies cfg W 1,
        if_then (\<lambda>g. \<not> density_sum g) (set_only_internal False),
        doCommand0 W EULER {''INTEGRATOR_STEP_1''},
        if_then (\<lambda>g. density_sum g \<and> multi g)
          (block
             [doCommand0 W UPDATE_EXTERNAL euler_update_flags,
              doCommand0 W UPDATE_EXTERNAL {''BUFFER_VEL'', ''BUFFER_GRADGAMMA'', ''DBLBUFFER_READ''}]),
        doCommand0 W SWAP_BUFFERS {''BUFFER_BOUNDELEMENTS''},
        if_then gravity (block [doCallBacks, doCommand0 W UPLOAD_GRAVITY NO_FLAGS]),
        if_then sa (saBoundaryConditions cfg W {''INTEGRATOR_STEP_1''}),
        doCommand0 W SWAP_BUFFERS {''POST_COMPUTE_SWAP_BUFFERS''},
        compute_forces cfg W ''INTEGRATOR_STEP_2'',
        doCommand0 W SWAP_BUFFERS
          {''BUFFER_POS'', ''BUFFER_VEL'', ''BUFFER_INTERNAL_ENERGY'', ''BUFFER_VOLUME'',
           ''BUFFER_TKE'', ''BUFFER_EPSILON'', ''BUFFER_BOUNDELEMENTS''},
        move_bodies cfg W 2,
        if_then (\<lambda>g. \<not> density_sum g) (set_only_internal False),
        doCommand0 W EULER {''INTEGRATOR_STEP_2''},
        if_then (\<lambda>g. density_sum g \<and> multi g) (doCommand0 W UPDATE_EXTERNAL euler_update_flags),
        if_then (\<lambda>g. 0 < numbodies (simparams cfg)) (doCommand0 W EULER_UPLOAD_OBJECTS_CG NO_FLAGS),
        doCommand0 W SWAP_BUFFERS {''BUFFER_BOUNDELEMENTS''},
        if_then sa (saBoundaryConditions cfg W {''INTEGRATOR_STEP_2''}),
        if_then (\<lambda>g. inlet_outlet cfg)
          (block [doCommand0 W DOWNLOAD_NEWNUMPARTS NO_FLAGS, host (update_particlesCreated cfg)]),
        doCommand0 W SWAP_BUFFERS {''POST_COMPUTE_SWAP_BUFFERS''}])"

text \<open>The time step chosen among the devices (and the nodes) when
  \<^verbatim>\<open>ENABLE_DTADAPT\<close> is set.\<close>

definition adapt_dt :: "config \<Rightarrow> 'a GlobalData \<Rightarrow> 'a GlobalData" where
  "adapt_dt cfg g =
     (if has_flag (simflags (simparams cfg)) ''ENABLE_DTADAPT'' then
        (let m = foldl (\<lambda>acc d. min acc (dts g d)) (dts g 0) [1..<devices (topology cfg)]
         in g\<lparr>dt := (if MULTI_NODE (topology cfg)
                      then networkFloatReduction_MIN (externals cfg) m else m)\<rparr>)
      else g)"

text \<open>The counters and the clock: \<^verbatim>\<open>iterations++\<close>, \<^verbatim>\<open>t += dt\<close>, the new \<^verbatim>\<open>dt\<close>.\<close>

definition advance_time :: "config \<Rightarrow> 'a GlobalData \<Rightarrow> 'a GlobalData" where
  "advance_time cfg g =
     adapt_dt cfg (g\<lparr>iterations := iterations g + 1,
                     t := double_plus (externals cfg) (t g) (dt g)\<rparr>)"

text \<open>The two checks of the time step, given \<^verbatim>\<open>previous_t\<close>.\<close>

definition check_dt :: "real \<Rightarrow> 'a proc" where
  "check_dt previous_t g =
     (if t g = 0 then (Some DtZeroException, g)
      else
        (let g1 = (if dt g < FLT_EPSILON
                   then (printf (Line ''FATAL: timestep under machine epsilon - requesting quit...'') g)
                          \<lparr>quit_request := True\<rparr>
                   else g);
             g2 = (if t g1 = previous_t
                   then (printf (Line ''FATAL: timestep too small, time is still - requesting quit...'') g1)
                          \<lparr>quit_request := True\<rparr>
                   else g1)
         in (None, g2)))"

definition we_are_done :: "config \<Rightarrow> 'a GlobalData \<Rightarrow> bool" where
  "we_are_done cfg g \<longleftrightarrow>
     problem_finished (externals cfg) (t g)
     \<or> (maxiter (clOptions cfg) \<noteq> 0 \<and> maxiter (clOptions cfg) \<le> iterations g)
     \<or> quit_request g"

text \<open>The termination test, the writes, and the end of the iteration.\<close>

definition write_and_finish :: "config \<Rightarrow> 'a workers \<Rightarrow> 'a proc" where
  "write_and_finish cfg W g =
     (let done = we_are_done cfg g;
          writers = Writer_NeedWrite (externals cfg) (t g);
          need_write = (writers \<noteq> []);
          force_write = (problem_need_write (externals cfg) (t g) \<or> done \<or> save_request g);
          g1 = (if force_write then g\<lparr>save_request := False\<rparr> else g)
      in seq
           (if_then (\<lambda>g'. need_write \<or> force_write)
              (if_then (\<lambda>g'. \<not> (nosave (clOptions cfg) \<and> \<not> force_write))
                 (seq (saveParticles cfg W (enabledPostProcess (simframework cfg))
                         (if force_write then {''ALL_INTEGRATION_STEPS''} else NO_FLAGS))
                      (if_then (\<lambda>g'. force_write \<or> 0 < foldl max 0 writers) printStatus))))
           (if_then (\<lambda>g'. done) (host (\<lambda>g'. g'\<lparr>keep_going := False\<rparr>)))
           g1)"

text \<open>The body of the loop after the commands: from \<^verbatim>\<open>gdata->iterations++\<close> to the end
  of the \<^verbatim>\<open>try\<close> block.\<close>

definition finish_iteration :: "config \<Rightarrow> 'a workers \<Rightarrow> 'a proc" where
  "finish_iteration cfg W g =
     seq (check_dt (t g)) (write_and_finish cfg W) (advance_time cfg g)"

definition loop_body :: "config \<Rightarrow> 'a workers \<Rightarrow> 'a proc" where
  "loop_body cfg W = seq (loop_commands cfg W) (finish_iteration cfg W)"

text \<open>
  The handler \<^verbatim>\<open>catch (exception &e)\<close>: it prints \<^verbatim>\<open>e.what()\<close>, clears \<^verbatim>\<open>keep_going\<close>
  and force-unlocks the synchronizer. (\<^verbatim>\<open>DtZeroException\<close> is declared in a header; it
  is taken to derive from \<^verbatim>\<open>std::exception\<close>.)
\<close>

definition catch_exception :: "abort \<Rightarrow> 'a GlobalData \<Rightarrow> 'a GlobalData" where
  "catch_exception e g = forceUnlock ((printf (Line (what e)) g)\<lparr>keep_going := False\<rparr>)"

text \<open>\<^verbatim>\<open>try { ... } catch (exception &e) { ... }\<close>: an exception is handled, an access
  out of bounds is not.\<close>

definition try_catch :: "'a proc \<Rightarrow> 'a proc" where
  "try_catch p g =
     (case p g of
        (None, g') \<Rightarrow> (None, g')
      | (Some e, g') \<Rightarrow> (if is_exception e then (None, catch_exception e g') else (Some e, g')))"

definition iteration :: "config \<Rightarrow> 'a workers \<Rightarrow> 'a proc" where
  "iteration cfg W = try_catch (loop_body cfg W)"

text \<open>
  \<^verbatim>\<open>while (gdata->keep_going) try { ... } catch ...\<close>. The loop need not end (a
  simulation that never finishes); \<open>None\<close> is the run that does not return.
\<close>

partial_function (option) simulation_loop ::
  "config \<Rightarrow> 'a workers \<Rightarrow> 'a GlobalData \<Rightarrow> (abort option \<times> 'a GlobalData) option" where
  "simulation_loop cfg W g =
     (if keep_going g then
        (case iteration cfg W g of
           (Some e, g') \<Rightarrow> Some (Some e, g')
         | (None, g') \<Rightarrow> simulation_loop cfg W g')
      else Some (None, g))"

section \<open>Properties of procedures\<close>

text \<open>
  \<open>hoare P p Q E\<close>: started in a state that satisfies \<open>P\<close>, the procedure \<open>p\<close> either
  returns normally in a state that satisfies \<open>Q\<close>, or aborts with some \<open>e\<close> in a state
  that satisfies \<open>E e\<close>.
\<close>

definition hoare ::
  "('a GlobalData \<Rightarrow> bool) \<Rightarrow> 'a proc \<Rightarrow> ('a GlobalData \<Rightarrow> bool) \<Rightarrow> (abort \<Rightarrow> 'a GlobalData \<Rightarrow> bool) \<Rightarrow> bool" where
  "hoare P p Q E \<longleftrightarrow>
     (\<forall>g g'. P g \<longrightarrow> (p g = (None, g') \<longrightarrow> Q g') \<and> (\<forall>e. p g = (Some e, g') \<longrightarrow> E e g'))"

text \<open>Every command posted so far was posted while \<^verbatim>\<open>keep_going\<close> was true.\<close>

fun posted_live :: "event \<Rightarrow> bool" where
  "posted_live (Post cmd flags arg live) = live"
| "posted_live Barrier = True"
| "posted_live ForceUnlock = True"
| "posted_live (Swap i j) = True"

definition posts_live :: "'a GlobalData \<Rightarrow> bool" where
  "posts_live g = list_all posted_live (events g)"

text \<open>The state in which the loop issues commands: \<^verbatim>\<open>keep_going\<close> is true and no
  command was posted after it had become false.\<close>

definition live :: "'a GlobalData \<Rightarrow> bool" where
  "live g \<longleftrightarrow> keep_going g \<and> posts_live g"

section \<open>Example runs\<close>

text \<open>A single-node configuration without open boundaries, and two behaviours of the
  workers: one that fails on every command, one that never fails.\<close>

definition example_config :: config where
  "example_config =
     \<lparr>topology = example_topology,
      simparams = \<lparr>simflags = {}, buildneibsfreq = 10, gcallback = False,
                   sph_formulation = SPH_OTHER, visctype = ARTVISC, boundarytype = LJ_BOUNDARY,
                   numbodies = 0, numforcesbodies = 0\<rparr>,
      clOptions = \<lparr>striping = False, nosave = False, maxiter = 0, no_leak_warning = False,
                   resume_fname_empty = True, inspect_preforce = False,
                   debug_neibs = False, debug_forces = False\<rparr>,
      simframework = \<lparr>hasBCEngine = False, enabledFilters = [], enabledPostProcess = [],
                      multi_buffered = {}\<rparr>,
      externals = \<lparr>problem_finished = (\<lambda>x. False), problem_need_write = (\<lambda>x. False),
                   Writer_NeedWrite = (\<lambda>x. []), allGatherUints = (\<lambda>c pp. pp),
                   networkFloatReduction_MIN = (\<lambda>x. x), networkBoolReduction = (\<lambda>b. b),
                   double_plus = (\<lambda>a b. a + b)\<rparr>\<rparr>"

definition failing_workers :: "nat workers" where
  "failing_workers g =
     \<lparr>w_keep_going = False, w_numInternalParticles = numInternalParticles g, w_dts = dts g,
      w_particlesCreatedOnNode = particlesCreatedOnNode g, w_BUFFER_INFO = BUFFER_INFO g\<rparr>"

definition healthy_workers :: "nat workers" where
  "healthy_workers g =
     \<lparr>w_keep_going = keep_going g, w_numInternalParticles = numInternalParticles g, w_dts = dts g,
      w_particlesCreatedOnNode = particlesCreatedOnNode g, w_BUFFER_INFO = BUFFER_INFO g\<rparr>"

definition worker_abort :: abort where
  "worker_abort = RuntimeError ''GPUSPH aborted by worker thread''"

text \<open>The state in which \<^verbatim>\<open>doCommand\<close> throws when the first command of an iteration
  (the \<^verbatim>\<open>SWAP_BUFFERS\<close> of \<^verbatim>\<open>buildNeibList\<close>) fails.\<close>

definition aborted_gdata :: "nat GlobalData" where
  "aborted_gdata =
     barrier (run_workers failing_workers
       (barrier (post SWAP_BUFFERS {''BUFFER_POS''} default_arg
          (example_gdata\<lparr>only_internal := False\<rparr>))))"

section \<open>Frames of the host procedures, and example states\<close>

text \<open>What a roll call leaves as it is: everything but its three arrays and the
  console, which only grows.\<close>

definition rc_frame :: "'a GlobalData \<Rightarrow> 'a GlobalData \<Rightarrow> bool" where
  "rc_frame g g' \<longleftrightarrow>
     keep_going g' = keep_going g \<and> quit_request g' = quit_request g \<and>
     save_request g' = save_request g \<and> events g' = events g \<and>
     threadSynchronizer g' = threadSynchronizer g \<and>
     totParticles g' = totParticles g \<and> allocatedParticles g' = allocatedParticles g \<and>
     processParticles g' = processParticles g \<and> s_hPartsPerDevice g' = s_hPartsPerDevice g \<and>
     s_hStartPerDevice g' = s_hStartPerDevice g \<and> iterations g' = iterations g \<and>
     t g' = t g \<and> dt g' = dt g \<and> BUFFER_INFO g' = BUFFER_INFO g \<and>
     (\<exists>ms. console g' = console g @ ms)"

text \<open>A quit was requested, and everything printed up to a given point is still on the
  console.\<close>

definition quitting :: "message list \<Rightarrow> 'a GlobalData \<Rightarrow> bool" where
  "quitting ms g \<longleftrightarrow> quit_request g \<and> (\<exists>ms'. console g = ms @ ms')"

definition dt_epsilon_line :: message where
  "dt_epsilon_line = Line ''FATAL: timestep under machine epsilon - requesting quit...''"

definition time_still_line :: message where
  "time_still_line = Line ''FATAL: timestep too small, time is still - requesting quit...''"

text \<open>A state at the end of the commands of an iteration: the time is 1, the time step
  is 0.\<close>

definition stalled_gdata :: "nat GlobalData" where
  "stalled_gdata = example_gdata\<lparr>t := 1, dt := 0\<rparr>"

text \<open>What \<^verbatim>\<open>updateArrayIndices\<close> leaves as it is once the offsets are written: the
  counts, the offsets, the capacity, the iteration counter and the quit request; the
  console only grows.\<close>

definition counts_frame :: "'a GlobalData \<Rightarrow> 'a GlobalData \<Rightarrow> bool" where
  "counts_frame g0 g \<longleftrightarrow>
     allocatedParticles g = allocatedParticles g0 \<and> iterations g = iterations g0 \<and>
     s_hPartsPerDevice g = s_hPartsPerDevice g0 \<and> s_hStartPerDevice g = s_hStartPerDevice g0 \<and>
     processParticles g = processParticles g0 \<and> quit_request g = quit_request g0 \<and>
     (\<exists>ms. console g = console g0 @ ms)"

text \<open>The state \<^verbatim>\<open>updateArrayIndices\<close> has reached when it starts to reconcile the
  total: counts, local total, gathered totals and offsets are written.\<close>

definition counted :: "config \<Rightarrow> 'a GlobalData \<Rightarrow> 'a GlobalData" where
  "counted cfg g =
     (let tp = topology cfg;
          g1 = fst (count_devices tp g);
          processCount = snd (count_devices tp g);
          g2 = g1\<lparr>processParticles := (processParticles g1)(mpi_rank tp := processCount)\<rparr>;
          g3 = (if MULTI_NODE tp
                then g2\<lparr>processParticles :=
                          allGatherUints (externals cfg) processCount (processParticles g2)\<rparr>
                else g2)
      in update_offsets tp g3)"

text \<open>Two workers report 4 particles each, for a capacity of 6; the stored total is
  still 4 in the first state and already 8 in the second.\<close>

definition overfull_gdata :: "nat GlobalData" where
  "overfull_gdata = example_gdata\<lparr>numInternalParticles := (\<lambda>d. 4)\<rparr>"

definition overfull_reconciled_gdata :: "nat GlobalData" where
  "overfull_reconciled_gdata = example_gdata\<lparr>numInternalParticles := (\<lambda>d. 4), totParticles := 8\<rparr>"

text \<open>A state whose counts and offsets are stale: 3 particles per device, every device
  starting at 5, while each of the two workers reports 2 particles.\<close>

definition stale_counts_gdata :: "nat GlobalData" where
  "stale_counts_gdata = example_gdata\<lparr>s_hPartsPerDevice := (\<lambda>d. 3), s_hStartPerDevice := (\<lambda>d. 5)\<rparr>"

text \<open>The example configuration with the option \<^verbatim>\<open>--no-leak-warning\<close>, and a state in
  which each of the two workers reports 1 particle while the stored total is 4.\<close>

definition quiet_config :: config where
  "quiet_config = example_config\<lparr>clOptions := (clOptions example_config)\<lparr>no_leak_warning := True\<rparr>\<rparr>"

definition leaking_gdata :: "nat GlobalData" where
  "leaking_gdata = example_gdata\<lparr>numInternalParticles := (\<lambda>d. 1)\<rparr>"

text \<open>The command that \<^verbatim>\<open>updateArrayIndices\<close> posts before the roll call, as it appears
  in the list of calls when posted from the state \<open>g\<close>.\<close>

definition dump_posted :: "'a GlobalData \<Rightarrow> event" where
  "dump_posted g = Post DUMP {''BUFFER_INFO'', ''DBLBUFFER_READ''} default_arg (keep_going g)"

text \<open>The state in which \<^verbatim>\<open>updateArrayIndices\<close> calls \<^verbatim>\<open>rollCallParticles\<close>: the counts
  and offsets are written, the warning of the changed total is printed and the workers
  have executed the \<^verbatim>\<open>DUMP\<close> command.\<close>

definition before_roll_call :: "config \<Rightarrow> 'a workers \<Rightarrow> 'a GlobalData \<Rightarrow> 'a GlobalData" where
  "before_roll_call cfg W g =
     snd (doCommand0 W DUMP {''BUFFER_INFO'', ''DBLBUFFER_READ''}
            (printf (CountChanged (iterations g) (totParticles g)
                       (newSimulationTotal (topology cfg) (counted cfg g)))
               (counted cfg g)))"

text \<open>Each of the two workers reports 1 particle while the stored total is 4; the
  particle with id 0 is at indices 0 and 1 and no particle has id 1.\<close>

definition leaking_duplicated_gdata :: "nat GlobalData" where
  "leaking_duplicated_gdata =
     example_gdata\<lparr>numInternalParticles := (\<lambda>d. 1), BUFFER_INFO := [0, 0, 2, 3]\<rparr>"

section \<open>The roll call over a run\<close>

text \<open>
  The two ways a roll call can end abnormally: the runtime error of \<open>doCommand\<close> when a
  worker has cleared \<open>keep_going\<close> during the \<open>DUMP\<close>, and an access outside the three
  roll-call arrays, which are allocated with \<open>allocatedParticles\<close> elements.
\<close>

definition roll_call_abort :: "abort \<Rightarrow> bool" where
  "roll_call_abort e \<longleftrightarrow> e = worker_abort \<or> e = OutOfBoundsAccess"

text \<open>The particle id a line of the roll call warns about, and the ids warned about on
  a console, in the order of the lines.\<close>

fun warned_id :: "message \<Rightarrow> nat option" where
  "warned_id (RollCallDouble it part_id addr part_index) = Some part_id"
| "warned_id (RollCallMissing it part_id) = Some part_id"
| "warned_id m = None"

fun warned_ids :: "message list \<Rightarrow> nat list" where
  "warned_ids [] = []"
| "warned_ids (m # ms) = (case warned_id m of Some i \<Rightarrow> i # warned_ids ms | None \<Rightarrow> warned_ids ms)"

text \<open>No particle id has two warnings on the console, and every id with a warning is
  marked in \<^verbatim>\<open>m_rcNotified\<close>.\<close>

definition rc_once :: "'a GlobalData \<Rightarrow> bool" where
  "rc_once g \<longleftrightarrow>
     distinct (warned_ids (console g)) \<and> list_all (m_rcNotified g) (warned_ids (console g))"

text \<open>A step that leaves \<^verbatim>\<open>m_rcNotified\<close> as it is and prints no warning of the roll
  call.\<close>

definition rc_same :: "'a GlobalData \<Rightarrow> 'a GlobalData \<Rightarrow> bool" where
  "rc_same g g' \<longleftrightarrow>
     m_rcNotified g' = m_rcNotified g \<and> warned_ids (console g') = warned_ids (console g)"

text \<open>A state in which the particle with id 0 is at indices 0 and 1 and no particle has
  id 1.\<close>

definition duplicated_gdata :: "nat GlobalData" where
  "duplicated_gdata = example_gdata\<lparr>BUFFER_INFO := [0, 0, 2, 3], processParticles := (\<lambda>n. 4)\<rparr>"

section \<open>Correctness of the partitioner\<close>

lemma count_list_pos_nth:
  "k < length xs \<Longrightarrow> f (xs ! k) = c \<Longrightarrow> 0 < count_list (map f xs) c"
  by (metis count_list_0_iff length_map not_gr_zero nth_map nth_mem)

lemma count_list_map_update:
  "k < length xs \<Longrightarrow> f (xs ! k) = c \<Longrightarrow> f y \<noteq> c \<Longrightarrow>
   count_list (map f (xs[k := y])) c = count_list (map f xs) c - 1"
proof (induction xs arbitrary: k)
  case Nil
  then show ?case by simp
next
  case (Cons x xs)
  show ?case
  proof (cases k)
    case 0
    with Cons.prems show ?thesis by simp
  next
    case (Suc k')
    with Cons.prems have k': "k' < length xs" "f (xs ! k') = c" by simp_all
    from k' have "0 < count_list (map f xs) c" by (rule count_list_pos_nth)
    with Cons.IH [OF k' Cons.prems(3)] Suc show ?thesis by simp
  qed
qed

lemma scanRight_finds:
  "r < length keys \<Longrightarrow> j \<le> r \<Longrightarrow> GLOBAL_DEVICE_NUM tp (keys ! j) = cur \<Longrightarrow>
   \<exists>r'. scanRight tp keys cur r = Inr r' \<and> j \<le> r' \<and> r' \<le> r
        \<and> GLOBAL_DEVICE_NUM tp (keys ! r') = cur
        \<and> (\<forall>i. r' < i \<and> i \<le> r \<longrightarrow> GLOBAL_DEVICE_NUM tp (keys ! i) \<noteq> cur)"
proof (induction r)
  case 0
  then show ?case by simp
next
  case (Suc r)
  show ?case
  proof (cases "GLOBAL_DEVICE_NUM tp (keys ! Suc r) = cur")
    case True
    with Suc.prems show ?thesis by auto
  next
    case False
    with Suc.prems have "j \<le> r" by (metis le_SucE)
    with Suc.IH Suc.prems obtain r' where r': "scanRight tp keys cur r = Inr r'" "j \<le> r'" "r' \<le> r"
        "GLOBAL_DEVICE_NUM tp (keys ! r') = cur"
        "\<forall>i. r' < i \<and> i \<le> r \<longrightarrow> GLOBAL_DEVICE_NUM tp (keys ! i) \<noteq> cur"
      by auto
    have "\<forall>i. r' < i \<and> i \<le> Suc r \<longrightarrow> GLOBAL_DEVICE_NUM tp (keys ! i) \<noteq> cur"
      using r'(5) False by (metis le_SucE)
    with r' False Suc.prems show ?thesis by auto
  qed
qed

lemma length_swap_elements [simp]: "length (swap_elements i j xs) = length xs"
  by (simp add: swap_elements_def)

lemma nth_swap_elements:
  "i < length xs \<Longrightarrow> j < length xs \<Longrightarrow>
   swap_elements i j xs ! p = (if p = j then xs ! i else if p = i then xs ! j else xs ! p)"
  by (simp add: swap_elements_def nth_list_update)

lemma mset_swap_elements:
  "i < length xs \<Longrightarrow> j < length xs \<Longrightarrow> mset (swap_elements i j xs) = mset xs"
  by (simp add: swap_elements_def mset_swap)

lemma take_swap_elements_below:
  "b \<le> i \<Longrightarrow> b \<le> j \<Longrightarrow> take b (swap_elements i j xs) = take b xs"
  by (simp add: swap_elements_def)

lemma take_swap_elements_within:
  "i < n \<Longrightarrow> j < n \<Longrightarrow> take n (swap_elements i j xs) = swap_elements i j (take n xs)"
  by (simp add: swap_elements_def take_update_swap)

lemma drop_swap_elements_above:
  "i < n \<Longrightarrow> j < n \<Longrightarrow> drop n (swap_elements i j xs) = drop n xs"
  by (simp add: swap_elements_def)

lemma perm_prefix_refl: "perm_prefix n xs xs"
  by (simp add: perm_prefix_def)

lemma perm_prefix_trans: "perm_prefix n xs ys \<Longrightarrow> perm_prefix n ys zs \<Longrightarrow> perm_prefix n xs zs"
  by (simp add: perm_prefix_def)

lemma perm_prefix_swap:
  "i < n \<Longrightarrow> j < n \<Longrightarrow> n \<le> length xs \<Longrightarrow> perm_prefix n xs (swap_elements i j xs)"
  by (simp add: perm_prefix_def take_swap_elements_within drop_swap_elements_above
      mset_swap_elements)

lemma count_after_swap:
  assumes "l < r" "r < length ks" "f (ks ! r) = c" "f (ks ! l) \<noteq> c"
  shows "count_list (map f (drop (Suc l) (swap_elements l r ks))) c
         = count_list (map f (drop (Suc l) ks)) c - 1"
proof -
  have "drop (Suc l) (swap_elements l r ks) = (drop (Suc l) ks)[r - Suc l := ks ! l]"
    using assms by (simp add: swap_elements_def drop_update_swap)
  moreover have "r - Suc l < length (drop (Suc l) ks)" using assms by simp
  moreover have "f (drop (Suc l) ks ! (r - Suc l)) = c" using assms by simp
  ultimately show ?thesis using assms(4) by (simp add: count_list_map_update)
qed

lemma count_drop_Suc:
  "l < length ks \<Longrightarrow>
   count_list (map f (drop l ks)) c
   = (if f (ks ! l) = c then 1 else 0) + count_list (map f (drop (Suc l) ks)) c"
  by (simp add: Cons_nth_drop_Suc [symmetric])

declare bucketPass.simps [simp del]

lemma particleSwap_fields [simp]:
  "BUFFER_HASH (particleSwap i j g) = swap_elements i j (BUFFER_HASH g)"
  "s_hDeviceMap (particleSwap i j g) = s_hDeviceMap g"
  "totParticles (particleSwap i j g) = totParticles g"
  "s_hPartsPerDevice (particleSwap i j g) = s_hPartsPerDevice g"
  "events (particleSwap i j g) = events g @ [Swap i j]"
  by (simp_all add: particleSwap_def)

lemma same_but_buffers_refl: "same_but_buffers n g g"
proof -
  have "g = g\<lparr>BUFFER_HASH := BUFFER_HASH g, BUFFER_INFO := BUFFER_INFO g,
               otherBuffers := otherBuffers g, events := events g\<rparr>" by simp
  then show ?thesis unfolding same_but_buffers_def using perm_prefix_refl by blast
qed

lemma same_but_buffers_trans:
  assumes "same_but_buffers n g g'" "same_but_buffers n g' g''"
  shows "same_but_buffers n g g''"
proof -
  from assms(1) obtain hs "is" os ev where
    1: "g' = g\<lparr>BUFFER_HASH := hs, BUFFER_INFO := is, otherBuffers := os, events := ev\<rparr>"
    and p1: "perm_prefix n (BUFFER_HASH g) hs" unfolding same_but_buffers_def by blast
  from assms(2) obtain hs' is' os' ev' where
    2: "g'' = g'\<lparr>BUFFER_HASH := hs', BUFFER_INFO := is', otherBuffers := os', events := ev'\<rparr>"
    and p2: "perm_prefix n (BUFFER_HASH g') hs'" unfolding same_but_buffers_def by blast
  from 1 2 have "g'' = g\<lparr>BUFFER_HASH := hs', BUFFER_INFO := is', otherBuffers := os', events := ev'\<rparr>"
    by simp
  moreover from 1 p1 p2 have "perm_prefix n (BUFFER_HASH g) hs'"
    by (auto intro: perm_prefix_trans)
  ultimately show ?thesis unfolding same_but_buffers_def by blast
qed

lemma same_but_buffers_swap:
  assumes "i < n" "j < n" "n \<le> length (BUFFER_HASH g)"
  shows "same_but_buffers n g (particleSwap i j g)"
  unfolding same_but_buffers_def particleSwap_def
  using perm_prefix_swap [OF assms] by blast

lemma keys_match_swap:
  assumes km: "keys_match tp s" and l: "l < length (m_hParticleKeys s)" and r: "r < length (m_hParticleKeys s)"
  shows "keys_match tp (s\<lparr>rightB := r', gdata := particleSwap l r (gdata s),
            m_hParticleKeys := swap_elements l r (m_hParticleKeys s), leftB := l'\<rparr>)"
proof -
  from km have len: "length (m_hParticleKeys s) \<le> length (BUFFER_HASH (gdata s))"
    and nth: "\<And>p. p < length (m_hParticleKeys s) \<Longrightarrow> m_hParticleKeys s ! p = device_of_particle tp (gdata s) p"
    by (simp_all add: keys_match_def)
  from l r len have lh: "l < length (BUFFER_HASH (gdata s))" and rh: "r < length (BUFFER_HASH (gdata s))"
    by simp_all
  show ?thesis
    unfolding keys_match_def
    using len nth l r
    by (simp add: nth_swap_elements lh rh device_of_particle_def)
qed

lemma pass_inv_in_range:
  assumes "pass_inv tp cur b s" "leftB s < nextBucketBeginsAt s"
  shows "leftB s < length (m_hParticleKeys s)"
proof (rule ccontr)
  assume "\<not> leftB s < length (m_hParticleKeys s)"
  then have "drop (leftB s) (m_hParticleKeys s) = []" by simp
  with assms show False by (simp add: pass_inv_def)
qed

lemma pass_inv_keep:
  assumes inv: "pass_inv tp cur b s" and lt: "leftB s < nextBucketBeginsAt s"
    and eq: "GLOBAL_DEVICE_NUM tp (m_hParticleKeys s ! leftB s) = cur"
  shows "pass_inv tp cur b (s\<lparr>leftB := leftB s + 1\<rparr>)"
proof -
  have rng: "leftB s < length (m_hParticleKeys s)" using inv lt by (rule pass_inv_in_range)
  have cnt: "count_list (map (GLOBAL_DEVICE_NUM tp) (drop (Suc (leftB s)) (m_hParticleKeys s))) cur
             = nextBucketBeginsAt s - Suc (leftB s)"
  proof -
    have c: "count_list (map (GLOBAL_DEVICE_NUM tp) (drop (leftB s) (m_hParticleKeys s))) cur
             = nextBucketBeginsAt s - leftB s" using inv by (simp add: pass_inv_def)
    have "count_list (map (GLOBAL_DEVICE_NUM tp) (drop (leftB s) (m_hParticleKeys s))) cur
          = 1 + count_list (map (GLOBAL_DEVICE_NUM tp) (drop (Suc (leftB s)) (m_hParticleKeys s))) cur"
      using count_drop_Suc [OF rng, of "GLOBAL_DEVICE_NUM tp" cur] eq by simp
    with c show ?thesis by arith
  qed
  have "\<forall>i. b \<le> i \<and> i < Suc (leftB s) \<longrightarrow> GLOBAL_DEVICE_NUM tp (m_hParticleKeys s ! i) = cur"
    using inv eq by (auto simp: pass_inv_def less_Suc_eq)
  with inv lt cnt show ?thesis by (simp add: pass_inv_def)
qed

lemma pass_inv_scan:
  assumes inv: "pass_inv tp cur b s" and lt: "leftB s < nextBucketBeginsAt s"
    and neq: "GLOBAL_DEVICE_NUM tp (m_hParticleKeys s ! leftB s) \<noteq> cur"
  shows "\<exists>r. scanRight tp (m_hParticleKeys s) cur (rightB s) = Inr r
             \<and> leftB s < r \<and> r \<le> rightB s \<and> r < length (m_hParticleKeys s)
             \<and> GLOBAL_DEVICE_NUM tp (m_hParticleKeys s ! r) = cur
             \<and> (\<forall>i. r < i \<and> i < length (m_hParticleKeys s)
                   \<longrightarrow> GLOBAL_DEVICE_NUM tp (m_hParticleKeys s ! i) \<noteq> cur)"
proof -
  let ?ks = "m_hParticleKeys s"
  let ?G = "GLOBAL_DEVICE_NUM tp"
  have rng: "leftB s < length ?ks" using inv lt by (rule pass_inv_in_range)
  have rb: "rightB s < length ?ks" using inv lt by (simp add: pass_inv_def)
  have "0 < count_list (map ?G (drop (leftB s) ?ks)) cur"
    using inv lt by (simp add: pass_inv_def)
  then have "cur \<in> set (map ?G (drop (leftB s) ?ks))"
    by (metis count_list_0_iff less_numeral_extra(3))
  then obtain k where k: "k < length (drop (leftB s) ?ks)" "?G (drop (leftB s) ?ks ! k) = cur"
    by (auto simp: in_set_conv_nth)
  define j where "j = leftB s + k"
  from k have j: "j < length ?ks" "?G (?ks ! j) = cur" by (simp_all add: j_def)
  from j neq have "j \<noteq> leftB s" by auto
  then have lj: "leftB s < j" by (simp add: j_def)
  have jr: "j \<le> rightB s"
  proof (rule ccontr)
    assume "\<not> j \<le> rightB s"
    with j inv show False by (simp add: pass_inv_def)
  qed
  from scanRight_finds [OF rb jr j(2)] obtain r where r:
    "scanRight tp ?ks cur (rightB s) = Inr r" "j \<le> r" "r \<le> rightB s" "?G (?ks ! r) = cur"
    "\<forall>i. r < i \<and> i \<le> rightB s \<longrightarrow> ?G (?ks ! i) \<noteq> cur" by blast
  have "\<forall>i. r < i \<and> i < length ?ks \<longrightarrow> ?G (?ks ! i) \<noteq> cur"
  proof (intro allI impI)
    fix i assume i: "r < i \<and> i < length ?ks"
    show "?G (?ks ! i) \<noteq> cur"
    proof (cases "i \<le> rightB s")
      case True with r(5) i show ?thesis by blast
    next
      case False with inv i show ?thesis by (simp add: pass_inv_def)
    qed
  qed
  with r lj rb show ?thesis by auto
qed

lemma pass_inv_swap:
  assumes inv: "pass_inv tp cur b s" and lt: "leftB s < nextBucketBeginsAt s"
    and neq: "GLOBAL_DEVICE_NUM tp (m_hParticleKeys s ! leftB s) \<noteq> cur"
    and r: "leftB s < r" "r < length (m_hParticleKeys s)"
       "GLOBAL_DEVICE_NUM tp (m_hParticleKeys s ! r) = cur"
       "\<forall>i. r < i \<and> i < length (m_hParticleKeys s)
           \<longrightarrow> GLOBAL_DEVICE_NUM tp (m_hParticleKeys s ! i) \<noteq> cur"
  shows "pass_inv tp cur b (s\<lparr>rightB := r, gdata := g',
            m_hParticleKeys := swap_elements (leftB s) r (m_hParticleKeys s),
            leftB := leftB s + 1\<rparr>)"
proof -
  let ?ks = "m_hParticleKeys s"
  let ?G = "GLOBAL_DEVICE_NUM tp"
  let ?ks' = "swap_elements (leftB s) r ?ks"
  have rng: "leftB s < length ?ks" using r by simp
  have nth': "\<And>p. ?ks' ! p = (if p = r then ?ks ! leftB s else if p = leftB s then ?ks ! r else ?ks ! p)"
    using rng r(2) by (simp add: nth_swap_elements)
  have c0: "count_list (map ?G (drop (Suc (leftB s)) ?ks)) cur = nextBucketBeginsAt s - leftB s"
  proof -
    have c: "count_list (map ?G (drop (leftB s) ?ks)) cur = nextBucketBeginsAt s - leftB s"
      using inv by (simp add: pass_inv_def)
    have "count_list (map ?G (drop (leftB s) ?ks)) cur
          = count_list (map ?G (drop (Suc (leftB s)) ?ks)) cur"
      using count_drop_Suc [OF rng, of ?G cur] neq by simp
    with c show ?thesis by simp
  qed
  have cnt: "count_list (map ?G (drop (Suc (leftB s)) ?ks')) cur = nextBucketBeginsAt s - Suc (leftB s)"
    using count_after_swap [OF r(1) r(2) r(3) neq] c0 by simp
  have pre: "\<forall>i. b \<le> i \<and> i < Suc (leftB s) \<longrightarrow> ?G (?ks' ! i) = cur"
    using inv r(1) r(3) by (auto simp: pass_inv_def nth' less_Suc_eq)
  have post: "\<forall>i. r < i \<and> i < length ?ks \<longrightarrow> ?G (?ks' ! i) \<noteq> cur"
    using r(1) r(4) by (auto simp: nth')
  from inv lt cnt pre post r(2) show ?thesis by (simp add: pass_inv_def)
qed

lemma bucketPass_correct:
  "pass_inv tp cur b s \<Longrightarrow> keys_match tp s \<Longrightarrow>
   \<exists>s'. bucketPass tp cur s = (None, s') \<and> pass_post tp cur b s s'"
proof (induction tp cur s rule: bucketPass.induct)
  case (1 tp cur s)
  let ?ks = "m_hParticleKeys s"
  let ?G = "GLOBAL_DEVICE_NUM tp"
  note inv = "1.prems"(1) and km = "1.prems"(2)
  show ?case
  proof (cases "leftB s < nextBucketBeginsAt s")
    case False
    with inv have eq: "leftB s = nextBucketBeginsAt s" by (simp add: pass_inv_def)
    have "bucketPass tp cur s = (None, s)" using False by (simp add: bucketPass.simps)
    moreover have "pass_post tp cur b s s"
      using inv km eq by (simp add: pass_post_def pass_inv_def same_but_buffers_refl)
    ultimately show ?thesis by blast
  next
    case lt: True
    have rng: "leftB s < length ?ks" using inv lt by (rule pass_inv_in_range)
    show ?thesis
    proof (cases "?G (?ks ! leftB s) = cur")
      case True
      let ?s1 = "s\<lparr>leftB := leftB s + 1\<rparr>"
      have inv1: "pass_inv tp cur b ?s1" using inv lt True by (rule pass_inv_keep)
      have km1: "keys_match tp ?s1" using km by (simp add: keys_match_def)
      from "1.IH"(2) [OF lt _ _ inv1 km1] rng True
      obtain s' where s': "bucketPass tp cur ?s1 = (None, s')" "pass_post tp cur b ?s1 s'"
        by auto
      have "bucketPass tp cur s = (None, s')"
        using lt rng True s'(1) by (subst bucketPass.simps) simp
      moreover have "pass_post tp cur b s s'"
        using s'(2) by (simp add: pass_post_def)
      ultimately show ?thesis by blast
    next
      case False
      from pass_inv_scan [OF inv lt False] obtain r where r:
        "scanRight tp ?ks cur (rightB s) = Inr r" "leftB s < r" "r < length ?ks"
        "?G (?ks ! r) = cur" "\<forall>i. r < i \<and> i < length ?ks \<longrightarrow> ?G (?ks ! i) \<noteq> cur"
        by blast
      let ?s1 = "s\<lparr>rightB := r, gdata := particleSwap (leftB s) r (gdata s),
                   m_hParticleKeys := swap_elements (leftB s) r ?ks, leftB := leftB s + 1\<rparr>"
      have inv1: "pass_inv tp cur b ?s1"
        using inv lt False r(2-5) by (rule pass_inv_swap)
      have km1: "keys_match tp ?s1" using km rng r(3) by (rule keys_match_swap)
      from "1.IH"(1) [OF lt _ _ r(1) inv1 km1] rng False
      obtain s' where s': "bucketPass tp cur ?s1 = (None, s')" "pass_post tp cur b ?s1 s'"
        by auto
      have run: "bucketPass tp cur s = (None, s')"
        using lt rng False r(1) s'(1) by (subst bucketPass.simps) simp
      from km have len: "length ?ks \<le> length (BUFFER_HASH (gdata s))" by (simp add: keys_match_def)
      have fr: "same_but_buffers (length ?ks) (gdata s) (particleSwap (leftB s) r (gdata s))"
        using rng r(3) len by (rule same_but_buffers_swap)
      from s'(2) have fr': "same_but_buffers (length ?ks) (particleSwap (leftB s) r (gdata s)) (gdata s')"
        by (simp add: pass_post_def)
      have bl: "b \<le> leftB s" using inv by (simp add: pass_inv_def)
      have "pass_post tp cur b s s'"
        using s'(2) same_but_buffers_trans [OF fr fr'] bl r(2) rng r(3)
        by (simp add: pass_post_def take_swap_elements_below mset_swap_elements)
      with run show ?thesis by blast
    qed
  qed
qed

lemma for_loop_append:
  "for_loop (xs @ ys) body s =
     (case for_loop xs body s of (Some e, s') \<Rightarrow> (Some e, s') | (None, s') \<Rightarrow> for_loop ys body s')"
  by (induction xs arbitrary: s) (auto split: prod.splits option.splits)

lemma for_loop_invariant:
  assumes step: "\<And>i s. i < m \<Longrightarrow> I i s \<Longrightarrow> \<exists>s'. body i s = (None, s') \<and> I (Suc i) s'"
    and init: "I 0 s"
  shows "\<exists>s'. for_loop [0..<m] body s = (None, s') \<and> I m s'"
  using step
proof (induction m)
  case 0
  with init show ?case by simp
next
  case (Suc m)
  from Suc.IH Suc.prems obtain s1 where s1: "for_loop [0..<m] body s = (None, s1)" "I m s1"
    by (metis less_Suc_eq)
  from Suc.prems [of m s1] s1(2) obtain s2 where s2: "body m s1 = (None, s2)" "I (Suc m) s2"
    by auto
  from s1 s2 show ?case by (simp add: for_loop_append)
qed

lemma count_list_le_length: "count_list xs x \<le> length xs"
  by (induction xs) auto

lemma count_list_take_drop:
  "count_list (map f xs) c = count_list (map f (take b xs)) c + count_list (map f (drop b xs)) c"
proof -
  have "map f xs = map f (take b xs) @ map f (drop b xs)"
    by (metis append_take_drop_id map_append)
  then show ?thesis by (metis count_list_append)
qed

lemma count_list_zero_if: "(\<And>i. i < length xs \<Longrightarrow> f (xs ! i) \<noteq> c) \<Longrightarrow> count_list (map f xs) c = 0"
proof -
  assume a: "\<And>i. i < length xs \<Longrightarrow> f (xs ! i) \<noteq> c"
  have "c \<notin> set (map f xs)"
  proof
    assume "c \<in> set (map f xs)"
    then obtain i where "i < length xs" "f (xs ! i) = c"
      by (auto simp: in_set_conv_nth)
    with a show False by blast
  qed
  then show ?thesis by (simp add: count_list_0_iff)
qed

lemma nth_in_set_drop: "b \<le> i \<Longrightarrow> i < length xs \<Longrightarrow> xs ! i \<in> set (drop b xs)"
proof -
  assume a: "b \<le> i" "i < length xs"
  then have "drop b xs ! (i - b) = xs ! i" "i - b < length (drop b xs)" by simp_all
  then show ?thesis by (metis nth_mem)
qed

lemma in_set_dropD: "x \<in> set (drop b xs) \<Longrightarrow> \<exists>j. b \<le> j \<and> j < length xs \<and> xs ! j = x"
proof -
  assume "x \<in> set (drop b xs)"
  then obtain k where k: "k < length (drop b xs)" "drop b xs ! k = x"
    by (auto simp: in_set_conv_nth)
  then have "b \<le> b + k \<and> b + k < length xs \<and> xs ! (b + k) = x" by simp
  then show ?thesis by blast
qed

lemma count_list_mset_cong: "mset xs = mset ys \<Longrightarrow> count_list (map f xs) c = count_list (map f ys) c"
  by (metis count_mset mset_map)

lemma mset_drop_eq:
  assumes "mset xs = mset ys" "take b xs = take b ys"
  shows "mset (drop b xs) = mset (drop b ys)"
proof -
  have "mset (take b xs) + mset (drop b xs) = mset (take b ys) + mset (drop b ys)"
    using assms(1) by (metis append_take_drop_id mset_append)
  with assms(2) show ?thesis by simp
qed

lemma upred_pos: "0 < n \<Longrightarrow> upred n = n - 1"
  by (simp add: upred_def)

lemma sort_bucket_step:
  assumes inv: "buckets_inv tp d s" and d: "d < MAX_DEVICES_PER_CLUSTER tp"
  shows "\<exists>s'. sort_bucket tp (upred (length (m_hParticleKeys s))) d s = (None, s')
           \<and> buckets_inv tp (Suc d) s'
           \<and> length (m_hParticleKeys s') = length (m_hParticleKeys s)
           \<and> mset (m_hParticleKeys s') = mset (m_hParticleKeys s)
           \<and> same_but_buffers (length (m_hParticleKeys s)) (gdata s) (gdata s')"
proof -
  let ?ks = "m_hParticleKeys s"
  let ?G = "GLOBAL_DEVICE_NUM tp"
  let ?n = "length ?ks"
  let ?b = "nextBucketBeginsAt s"
  let ?cnt = "particlesPerGlobalDevice s d"
  let ?s1 = "s\<lparr>nextBucketBeginsAt := ?b + ?cnt, rightB := upred ?n\<rparr>"
  from inv have lb: "leftB s = ?b" and bn: "?b \<le> ?n"
    and below: "\<And>i. i < ?b \<Longrightarrow> ?G (?ks ! i) < d"
    and above: "\<And>i. ?b \<le> i \<Longrightarrow> i < ?n \<Longrightarrow> d \<le> ?G (?ks ! i)"
    and srt: "\<And>i j. i \<le> j \<Longrightarrow> j < ?b \<Longrightarrow> ?G (?ks ! i) \<le> ?G (?ks ! j)"
    and cnts: "\<And>c. particlesPerGlobalDevice s c = count_list (map ?G ?ks) c"
    and km: "keys_match tp s"
    by (simp_all add: buckets_inv_def)
  have "count_list (map ?G (take ?b ?ks)) d = 0"
  proof (rule count_list_zero_if)
    fix i assume "i < length (take ?b ?ks)"
    then have "i < ?b" by simp
    with below [of i] show "?G (take ?b ?ks ! i) \<noteq> d" by simp
  qed
  with cnts [of d] count_list_take_drop [of ?G ?ks d ?b]
  have cd: "count_list (map ?G (drop ?b ?ks)) d = ?cnt" by simp
  have cn: "?b + ?cnt \<le> ?n"
    using count_list_le_length [of "map ?G (drop ?b ?ks)" d] cd bn by simp
  have pinv: "pass_inv tp d ?b ?s1"
  proof -
    have "?b < ?b + ?cnt \<longrightarrow> upred ?n < ?n"
      using cn by (auto simp: upred_def)
    moreover have "\<forall>i. upred ?n < i \<and> i < ?n \<longrightarrow> ?G (?ks ! i) \<noteq> d"
      by (auto simp: upred_def)
    ultimately show ?thesis using lb cd by (simp add: pass_inv_def)
  qed
  have km1: "keys_match tp ?s1" using km by (simp add: keys_match_def)
  from bucketPass_correct [OF pinv km1] obtain s' where
    run: "bucketPass tp d ?s1 = (None, s')" and post: "pass_post tp d ?b ?s1 s'" by blast
  let ?ks' = "m_hParticleKeys s'"
  from post have p_left: "leftB s' = ?b + ?cnt" and p_next: "nextBucketBeginsAt s' = ?b + ?cnt"
    and p_cnts: "particlesPerGlobalDevice s' = particlesPerGlobalDevice s"
    and p_len: "length ?ks' = ?n" and p_take: "take ?b ?ks' = take ?b ?ks"
    and p_mset: "mset ?ks' = mset ?ks"
    and p_mid: "\<And>i. ?b \<le> i \<Longrightarrow> i < ?b + ?cnt \<Longrightarrow> ?G (?ks' ! i) = d"
    and p_zero: "count_list (map ?G (drop (?b + ?cnt) ?ks')) d = 0"
    and p_km: "keys_match tp s'"
    and p_fr: "same_but_buffers ?n (gdata s) (gdata s')"
    by (simp_all add: pass_post_def)
  have low: "\<And>i. i < ?b \<Longrightarrow> ?ks' ! i = ?ks ! i"
    using p_take by (metis nth_take)
  have i1: "\<forall>i < ?b + ?cnt. ?G (?ks' ! i) < Suc d"
  proof (intro allI impI)
    fix i assume i: "i < ?b + ?cnt"
    show "?G (?ks' ! i) < Suc d"
    proof (cases "i < ?b")
      case True with below [of i] low [of i] show ?thesis by simp
    next
      case False with p_mid [of i] i show ?thesis by simp
    qed
  qed
  have i2: "\<forall>i. ?b + ?cnt \<le> i \<and> i < ?n \<longrightarrow> Suc d \<le> ?G (?ks' ! i)"
  proof (intro allI impI)
    fix i assume i: "?b + ?cnt \<le> i \<and> i < ?n"
    then have mem: "?ks' ! i \<in> set (drop ?b ?ks')"
      using p_len by (simp add: nth_in_set_drop)
    have "mset (drop ?b ?ks') = mset (drop ?b ?ks)" using p_mset p_take by (rule mset_drop_eq)
    then have "set (drop ?b ?ks') = set (drop ?b ?ks)" by (rule mset_eq_setD)
    with mem have "?ks' ! i \<in> set (drop ?b ?ks)" by simp
    then obtain j where j: "?b \<le> j" "j < ?n" "?ks ! j = ?ks' ! i"
      using in_set_dropD by metis
    with above [of j] have ge: "d \<le> ?G (?ks' ! i)" by simp
    have "?ks' ! i \<in> set (drop (?b + ?cnt) ?ks')"
      using i p_len by (simp add: nth_in_set_drop)
    then have "?G (?ks' ! i) \<in> set (map ?G (drop (?b + ?cnt) ?ks'))" by simp
    with p_zero have "?G (?ks' ! i) \<noteq> d" by (metis count_list_0_iff)
    with ge show "Suc d \<le> ?G (?ks' ! i)" by simp
  qed
  have i3: "\<forall>i j. i \<le> j \<and> j < ?b + ?cnt \<longrightarrow> ?G (?ks' ! i) \<le> ?G (?ks' ! j)"
  proof (intro allI impI)
    fix i j assume ij: "i \<le> j \<and> j < ?b + ?cnt"
    show "?G (?ks' ! i) \<le> ?G (?ks' ! j)"
    proof (cases "j < ?b")
      case True
      with ij srt [of i j] low [of i] low [of j] show ?thesis by simp
    next
      case False
      with ij p_mid [of j] have gj: "?G (?ks' ! j) = d" by simp
      show ?thesis
      proof (cases "i < ?b")
        case True with below [of i] low [of i] gj show ?thesis by simp
      next
        case False with ij p_mid [of i] gj show ?thesis by simp
      qed
    qed
  qed
  have i4: "\<forall>c. particlesPerGlobalDevice s' c = count_list (map ?G ?ks') c"
    using cnts p_cnts count_list_mset_cong [OF p_mset, of ?G] by simp
  have "buckets_inv tp (Suc d) s'"
    using p_left p_next cn p_len i1 i2 i3 i4 p_km by (simp add: buckets_inv_def)
  moreover have "sort_bucket tp (upred ?n) d s = (None, s')"
    using d run by (simp add: sort_bucket_def)
  ultimately show ?thesis using p_len p_mset p_fr by blast
qed

lemma count_particle_step:
  assumes wf: "sort_wf tp g" and p: "p < totParticles g" and inv: "count_inv tp g p s"
  shows "\<exists>s'. count_particle tp p s = (None, s') \<and> count_inv tp g (Suc p) s'"
proof -
  let ?ks = "m_hParticleKeys s"
  let ?k = "device_of_particle tp g p"
  from inv obtain parts pp where gs: "gdata s = g\<lparr>processParticles := pp, s_hPartsPerDevice := parts\<rparr>"
    by (auto simp: count_inv_def)
  from inv have len: "length ?ks = totParticles g"
    and keys: "\<And>q. q < p \<Longrightarrow> ?ks ! q = device_of_particle tp g q"
    and cnt: "\<And>c. particlesPerGlobalDevice s c = count_list (map (GLOBAL_DEVICE_NUM tp) (take p ?ks)) c"
    and prt: "\<And>d. d < MAX_DEVICES_PER_NODE tp \<Longrightarrow>
                s_hPartsPerDevice (gdata s) d = length (filter (on_device tp d) (take p ?ks))"
    by (simp_all add: count_inv_def)
  from wf p have w: "p < length (BUFFER_HASH g)"
      "cellHashFromParticleHash tp (BUFFER_HASH g ! p) < length (s_hDeviceMap g)"
      "RANK tp ?k < MAX_NODES_PER_CLUSTER tp"
      "GLOBAL_DEVICE_NUM tp ?k < MAX_DEVICES_PER_CLUSTER tp"
      "RANK tp ?k = mpi_rank tp \<longrightarrow> DEVICE tp ?k < MAX_DEVICES_PER_NODE tp"
    by (auto simp: sort_wf_def)
  have k: "s_hDeviceMap g ! cellHashFromParticleHash tp (BUFFER_HASH g ! p) = ?k"
    by (simp add: device_of_particle_def)
  define s' where "s' = s\<lparr>m_hParticleKeys := ?ks[p := ?k],
           particlesPerGlobalDevice :=
             (particlesPerGlobalDevice s)
               (GLOBAL_DEVICE_NUM tp ?k := particlesPerGlobalDevice s (GLOBAL_DEVICE_NUM tp ?k) + 1),
           gdata :=
             (gdata s)\<lparr>processParticles :=
                 (processParticles (gdata s))
                   (RANK tp ?k := processParticles (gdata s) (RANK tp ?k) + 1),
               s_hPartsPerDevice :=
                 (if RANK tp ?k = mpi_rank tp
                  then (s_hPartsPerDevice (gdata s))
                         (DEVICE tp ?k := s_hPartsPerDevice (gdata s) (DEVICE tp ?k) + 1)
                  else s_hPartsPerDevice (gdata s))\<rparr>\<rparr>"
  have run: "count_particle tp p s = (None, s')"
    using w p len gs k unfolding count_particle_def s'_def Let_def by (simp add: not_le)
  have tk: "take (Suc p) (?ks[p := ?k]) = take p ?ks @ [?k]"
    using p len by (simp add: take_Suc_conv_app_nth)
  have c1: "length (m_hParticleKeys s') = totParticles g" using len by (simp add: s'_def)
  have c2: "\<forall>q < Suc p. m_hParticleKeys s' ! q = device_of_particle tp g q"
    using keys p len by (auto simp: s'_def less_Suc_eq nth_list_update)
  have c3: "\<forall>c. particlesPerGlobalDevice s' c
           = count_list (map (GLOBAL_DEVICE_NUM tp) (take (Suc p) (m_hParticleKeys s'))) c"
    using cnt tk by (simp add: s'_def)
  have c4: "\<forall>d < MAX_DEVICES_PER_NODE tp.
        s_hPartsPerDevice (gdata s') d = length (filter (on_device tp d) (take (Suc p) (m_hParticleKeys s')))"
    using prt tk w(5) by (auto simp: s'_def on_device_def)
  have c5: "\<exists>parts pp. gdata s' = g\<lparr>processParticles := pp, s_hPartsPerDevice := parts\<rparr>"
    using gs by (simp add: s'_def) blast
  from c1 c2 c3 c4 c5 have "count_inv tp g (Suc p) s'" unfolding count_inv_def by blast
  with run show ?thesis by blast
qed

lemma count_inv_init: "count_inv tp g 0 (sort_prepare tp g)"
proof -
  have "gdata (sort_prepare tp g)
        = g\<lparr>processParticles := (\<lambda>n. if n < MAX_NODES_PER_CLUSTER tp then 0 else processParticles g n),
             s_hPartsPerDevice := (\<lambda>d. if d < MAX_DEVICES_PER_NODE tp then 0 else s_hPartsPerDevice g d)\<rparr>"
    by (simp add: sort_prepare_def)
  then have "\<exists>parts pp. gdata (sort_prepare tp g) = g\<lparr>processParticles := pp, s_hPartsPerDevice := parts\<rparr>"
    by blast
  moreover have "length (m_hParticleKeys (sort_prepare tp g)) = totParticles g"
    by (simp add: sort_prepare_def)
  moreover have "\<forall>c. particlesPerGlobalDevice (sort_prepare tp g) c = 0"
    by (simp add: sort_prepare_def)
  moreover have "\<forall>d < MAX_DEVICES_PER_NODE tp. s_hPartsPerDevice (gdata (sort_prepare tp g)) d = 0"
    by (simp add: sort_prepare_def)
  ultimately show ?thesis by (simp add: count_inv_def)
qed

lemma same_but_buffers_fields:
  assumes "same_but_buffers n g g'"
  shows "totParticles g' = totParticles g" "s_hDeviceMap g' = s_hDeviceMap g"
    "s_hPartsPerDevice g' = s_hPartsPerDevice g" "processParticles g' = processParticles g"
    "s_hStartPerDevice g' = s_hStartPerDevice g" "console g' = console g"
    "perm_prefix n (BUFFER_HASH g) (BUFFER_HASH g')"
  using assms unfolding same_but_buffers_def by auto

lemma sort_offsets_fields [simp]:
  "totParticles (sort_offsets tp g) = totParticles g"
  "s_hDeviceMap (sort_offsets tp g) = s_hDeviceMap g"
  "s_hPartsPerDevice (sort_offsets tp g) = s_hPartsPerDevice g"
  "BUFFER_HASH (sort_offsets tp g) = BUFFER_HASH g"
  "BUFFER_INFO (sort_offsets tp g) = BUFFER_INFO g"
  "otherBuffers (sort_offsets tp g) = otherBuffers g"
  "events (sort_offsets tp g) = events g"
  "console (sort_offsets tp g) = console g"
  by (simp_all add: sort_offsets_def Let_def)

lemma device_of_particle_cong:
  "s_hDeviceMap g' = s_hDeviceMap g \<Longrightarrow> BUFFER_HASH g' = BUFFER_HASH g \<Longrightarrow>
   device_of_particle tp g' p = device_of_particle tp g p"
  by (simp add: device_of_particle_def)

lemma sort_counting:
  assumes wf: "sort_wf tp g"
  shows "\<exists>s. for_loop [0..<totParticles g] (count_particle tp) (sort_prepare tp g) = (None, s)
          \<and> m_hParticleKeys s = map (device_of_particle tp g) [0..<totParticles g]
          \<and> (\<forall>c. particlesPerGlobalDevice s c
                = count_list (map (GLOBAL_DEVICE_NUM tp) (m_hParticleKeys s)) c)
          \<and> (\<forall>d < MAX_DEVICES_PER_NODE tp.
                s_hPartsPerDevice (gdata s) d = length (filter (on_device tp d) (m_hParticleKeys s)))
          \<and> (\<exists>parts pp. gdata s = g\<lparr>processParticles := pp, s_hPartsPerDevice := parts\<rparr>)"
proof -
  from for_loop_invariant [of "totParticles g" "count_inv tp g" "count_particle tp" "sort_prepare tp g"]
    count_particle_step [OF wf] count_inv_init
  obtain s where s: "for_loop [0..<totParticles g] (count_particle tp) (sort_prepare tp g) = (None, s)"
    "count_inv tp g (totParticles g) s" by blast
  from s(2) have len: "length (m_hParticleKeys s) = totParticles g"
    and nth: "\<And>q. q < totParticles g \<Longrightarrow> m_hParticleKeys s ! q = device_of_particle tp g q"
    by (simp_all add: count_inv_def)
  have "m_hParticleKeys s = map (device_of_particle tp g) [0..<totParticles g]"
    using len nth by (intro nth_equalityI) simp_all
  with s len show ?thesis by (simp add: count_inv_def)
qed

lemma sort_buckets_correct:
  assumes wf: "sort_wf tp g"
  shows "\<exists>s. sort_buckets tp g = (None, s)
          \<and> totParticles (gdata s) = totParticles g
          \<and> s_hDeviceMap (gdata s) = s_hDeviceMap g
          \<and> console (gdata s) = console g
          \<and> perm_prefix (totParticles g) (BUFFER_HASH g) (BUFFER_HASH (gdata s))
          \<and> (\<forall>i j. i \<le> j \<and> j < totParticles g
                \<longrightarrow> bucket_of tp (gdata s) i \<le> bucket_of tp (gdata s) j)
          \<and> (\<forall>d < MAX_DEVICES_PER_NODE tp.
                s_hPartsPerDevice (gdata s) d = count_on_device tp g d
                \<and> s_hPartsPerDevice (gdata s) d = count_on_device tp (gdata s) d)"
proof -
  let ?n = "totParticles g"
  let ?G = "GLOBAL_DEVICE_NUM tp"
  let ?D = "totDevices tp"
  from sort_counting [OF wf] obtain s1 parts pp where
    run1: "for_loop [0..<?n] (count_particle tp) (sort_prepare tp g) = (None, s1)"
    and K: "m_hParticleKeys s1 = map (device_of_particle tp g) [0..<?n]"
    and cnts: "\<And>c. particlesPerGlobalDevice s1 c = count_list (map ?G (m_hParticleKeys s1)) c"
    and prts: "\<And>d. d < MAX_DEVICES_PER_NODE tp \<Longrightarrow>
                s_hPartsPerDevice (gdata s1) d = length (filter (on_device tp d) (m_hParticleKeys s1))"
    and g1: "gdata s1 = g\<lparr>processParticles := pp, s_hPartsPerDevice := parts\<rparr>"
    by blast
  let ?K = "m_hParticleKeys s1"
  let ?g2 = "sort_offsets tp (gdata s1)"
  let ?s2 = "s1\<lparr>gdata := ?g2, leftB := 0, nextBucketBeginsAt := 0\<rparr>"
  have lenK: "length ?K = ?n" using K by simp
  have g2f: "totParticles ?g2 = ?n" "s_hDeviceMap ?g2 = s_hDeviceMap g"
    "BUFFER_HASH ?g2 = BUFFER_HASH g" "console ?g2 = console g"
    "s_hPartsPerDevice ?g2 = s_hPartsPerDevice (gdata s1)"
    using g1 by simp_all
  have km2: "keys_match tp ?s2"
    using wf K g2f by (simp add: keys_match_def sort_wf_def device_of_particle_def)
  have binv: "buckets_inv tp 0 ?s2"
    using cnts km2 by (simp add: buckets_inv_def)
  have init: "buckets_run_inv tp ?g2 ?K 0 ?s2"
    using binv by (simp add: buckets_run_inv_def same_but_buffers_refl)
  have D: "0 < ?D" "?D \<le> MAX_DEVICES_PER_CLUSTER tp" using wf by (simp_all add: sort_wf_def)
  have step: "\<And>i s. i < ?D - 1 \<Longrightarrow> buckets_run_inv tp ?g2 ?K i s \<Longrightarrow>
      \<exists>s'. sort_bucket tp (upred ?n) i s = (None, s') \<and> buckets_run_inv tp ?g2 ?K (Suc i) s'"
  proof -
    fix i s assume i: "i < ?D - 1" and inv: "buckets_run_inv tp ?g2 ?K i s"
    from i D have iM: "i < MAX_DEVICES_PER_CLUSTER tp" by simp
    from inv have b: "buckets_inv tp i s" and l: "length (m_hParticleKeys s) = ?n"
      and m: "mset (m_hParticleKeys s) = mset ?K"
      and f: "same_but_buffers ?n ?g2 (gdata s)"
      using lenK by (simp_all add: buckets_run_inv_def)
    from sort_bucket_step [OF b iM] l obtain s' where s':
      "sort_bucket tp (upred ?n) i s = (None, s')" "buckets_inv tp (Suc i) s'"
      "length (m_hParticleKeys s') = ?n" "mset (m_hParticleKeys s') = mset (m_hParticleKeys s)"
      "same_but_buffers ?n (gdata s) (gdata s')" by auto
    from s' m lenK same_but_buffers_trans [OF f s'(5)]
    have "buckets_run_inv tp ?g2 ?K (Suc i) s'" by (simp add: buckets_run_inv_def)
    with s'(1) show "\<exists>s'. sort_bucket tp (upred ?n) i s = (None, s') \<and> buckets_run_inv tp ?g2 ?K (Suc i) s'"
      by blast
  qed
  from for_loop_invariant [of "?D - 1" "buckets_run_inv tp ?g2 ?K" "sort_bucket tp (upred ?n)" ?s2,
      OF step init]
  obtain s3 where run3: "for_loop [0..<?D - 1] (sort_bucket tp (upred ?n)) ?s2 = (None, s3)"
    and inv3: "buckets_run_inv tp ?g2 ?K (?D - 1) s3" by blast
  have run: "sort_buckets tp g = (None, s3)"
    using run1 run3 D(1) g1 by (simp add: sort_buckets_def upred_pos)
  let ?ks = "m_hParticleKeys s3"
  let ?b = "nextBucketBeginsAt s3"
  from inv3 have b3: "buckets_inv tp (?D - 1) s3" and l3: "length ?ks = ?n"
    and m3: "mset ?ks = mset ?K" and f3: "same_but_buffers ?n ?g2 (gdata s3)"
    using lenK by (simp_all add: buckets_run_inv_def)
  note ff = same_but_buffers_fields [OF f3]
  from b3 have below: "\<And>i. i < ?b \<Longrightarrow> ?G (?ks ! i) < ?D - 1"
    and above: "\<And>i. ?b \<le> i \<Longrightarrow> i < ?n \<Longrightarrow> ?D - 1 \<le> ?G (?ks ! i)"
    and srt: "\<And>i j. i \<le> j \<Longrightarrow> j < ?b \<Longrightarrow> ?G (?ks ! i) \<le> ?G (?ks ! j)"
    and km3: "keys_match tp s3"
    using l3 by (simp_all add: buckets_inv_def)
  from km3 l3 have key3: "\<And>p. p < ?n \<Longrightarrow> ?ks ! p = device_of_particle tp (gdata s3) p"
    by (simp add: keys_match_def)
  have bound: "\<And>i. i < ?n \<Longrightarrow> ?G (?ks ! i) < ?D"
  proof -
    fix i assume "i < ?n"
    then have "?ks ! i \<in> set ?ks" using l3 by simp
    then have "?ks ! i \<in> set ?K" using m3 by (metis mset_eq_setD)
    then obtain p where "p < ?n" "?ks ! i = device_of_particle tp g p"
      using K by auto
    with wf show "?G (?ks ! i) < ?D" by (simp add: sort_wf_def)
  qed
  have sorted: "\<forall>i j. i \<le> j \<and> j < ?n \<longrightarrow> bucket_of tp (gdata s3) i \<le> bucket_of tp (gdata s3) j"
  proof (intro allI impI)
    fix i j assume ij: "i \<le> j \<and> j < ?n"
    then have eq: "bucket_of tp (gdata s3) i = ?G (?ks ! i)" "bucket_of tp (gdata s3) j = ?G (?ks ! j)"
      using key3 [of i] key3 [of j] by (simp_all add: bucket_of_def)
    have "?G (?ks ! i) \<le> ?G (?ks ! j)"
    proof (cases "j < ?b")
      case True with ij srt show ?thesis by simp
    next
      case False
      with ij above [of j] have gj: "?D - 1 \<le> ?G (?ks ! j)" by simp
      show ?thesis
      proof (cases "i < ?b")
        case True with below [of i] gj show ?thesis by simp
      next
        case False
        with ij bound [of i] gj show ?thesis by simp
      qed
    qed
    with eq show "bucket_of tp (gdata s3) i \<le> bucket_of tp (gdata s3) j" by simp
  qed
  have ks3: "?ks = map (device_of_particle tp (gdata s3)) [0..<?n]"
    using l3 key3 by (intro nth_equalityI) simp_all
  have counts: "\<forall>d < MAX_DEVICES_PER_NODE tp.
                s_hPartsPerDevice (gdata s3) d = count_on_device tp g d
                \<and> s_hPartsPerDevice (gdata s3) d = count_on_device tp (gdata s3) d"
  proof (intro allI impI)
    fix d assume d: "d < MAX_DEVICES_PER_NODE tp"
    have p: "s_hPartsPerDevice (gdata s3) d = length (filter (on_device tp d) ?K)"
      using prts [OF d] ff(3) g2f(5) by simp
    have a: "length (filter (on_device tp d) ?K) = count_on_device tp g d"
      unfolding count_on_device_def K by (simp add: filter_map comp_def)
    have "mset (filter (on_device tp d) ?ks) = mset (filter (on_device tp d) ?K)"
      using m3 by (metis mset_filter)
    then have "length (filter (on_device tp d) ?ks) = length (filter (on_device tp d) ?K)"
      by (metis size_mset)
    moreover have "length (filter (on_device tp d) ?ks) = count_on_device tp (gdata s3) d"
      unfolding count_on_device_def using ff(1) g2f(1)
      by (subst ks3) (simp add: filter_map comp_def)
    ultimately show "s_hPartsPerDevice (gdata s3) d = count_on_device tp g d
                \<and> s_hPartsPerDevice (gdata s3) d = count_on_device tp (gdata s3) d"
      using p a by simp
  qed
  have A: "totParticles (gdata s3) = ?n" using ff(1) g2f(1) by simp
  have B: "s_hDeviceMap (gdata s3) = s_hDeviceMap g" using ff(2) g2f(2) by simp
  have C: "console (gdata s3) = console g" using ff(6) g2f(4) by simp
  have P: "perm_prefix ?n (BUFFER_HASH g) (BUFFER_HASH (gdata s3))" using ff(7) g2f(3) by simp
  from run A B C P sorted counts show ?thesis by blast
qed

lemma bucketPass_noop:
  "leftB s \<le> nextBucketBeginsAt s \<Longrightarrow> nextBucketBeginsAt s \<le> length (m_hParticleKeys s) \<Longrightarrow>
   (\<forall>i. leftB s \<le> i \<and> i < nextBucketBeginsAt s
        \<longrightarrow> GLOBAL_DEVICE_NUM tp (m_hParticleKeys s ! i) = cur) \<Longrightarrow>
   bucketPass tp cur s = (None, s\<lparr>leftB := nextBucketBeginsAt s\<rparr>)"
proof (induction tp cur s rule: bucketPass.induct)
  case (1 tp cur s)
  show ?case
  proof (cases "leftB s < nextBucketBeginsAt s")
    case False
    with "1.prems"(1) have "leftB s = nextBucketBeginsAt s" by simp
    then have "s\<lparr>leftB := nextBucketBeginsAt s\<rparr> = s" by simp
    with False show ?thesis by (simp add: bucketPass.simps)
  next
    case True
    with "1.prems" have rng: "\<not> length (m_hParticleKeys s) \<le> leftB s"
      and eq: "\<not> GLOBAL_DEVICE_NUM tp (m_hParticleKeys s ! leftB s) \<noteq> cur" by simp_all
    let ?s1 = "s\<lparr>leftB := leftB s + 1\<rparr>"
    have "bucketPass tp cur ?s1 = (None, ?s1\<lparr>leftB := nextBucketBeginsAt ?s1\<rparr>)"
      using "1.IH"(2) [OF True rng eq] True "1.prems" by simp
    then show ?thesis using True rng eq by (subst bucketPass.simps) simp
  qed
qed

lemma bucket_full_when_sorted:
  assumes inv: "buckets_inv tp d s"
    and srt: "\<forall>i j. i \<le> j \<and> j < length (m_hParticleKeys s)
       \<longrightarrow> GLOBAL_DEVICE_NUM tp (m_hParticleKeys s ! i) \<le> GLOBAL_DEVICE_NUM tp (m_hParticleKeys s ! j)"
  shows "nextBucketBeginsAt s + particlesPerGlobalDevice s d \<le> length (m_hParticleKeys s)
       \<and> (\<forall>i. nextBucketBeginsAt s \<le> i \<and> i < nextBucketBeginsAt s + particlesPerGlobalDevice s d
            \<longrightarrow> GLOBAL_DEVICE_NUM tp (m_hParticleKeys s ! i) = d)"
proof -
  let ?ks = "m_hParticleKeys s"
  let ?G = "GLOBAL_DEVICE_NUM tp"
  let ?n = "length ?ks"
  let ?b = "nextBucketBeginsAt s"
  let ?cnt = "particlesPerGlobalDevice s d"
  from inv have bn: "?b \<le> ?n"
    and below: "\<And>i. i < ?b \<Longrightarrow> ?G (?ks ! i) < d"
    and above: "\<And>i. ?b \<le> i \<Longrightarrow> i < ?n \<Longrightarrow> d \<le> ?G (?ks ! i)"
    and cnts: "\<And>c. particlesPerGlobalDevice s c = count_list (map ?G ?ks) c"
    by (simp_all add: buckets_inv_def)
  have "count_list (map ?G (take ?b ?ks)) d = 0"
  proof (rule count_list_zero_if)
    fix i assume "i < length (take ?b ?ks)"
    then have "i < ?b" by simp
    with below [of i] show "?G (take ?b ?ks ! i) \<noteq> d" by simp
  qed
  with cnts [of d] count_list_take_drop [of ?G ?ks d ?b]
  have cd: "count_list (map ?G (drop ?b ?ks)) d = ?cnt" by simp
  have cn: "?b + ?cnt \<le> ?n"
    using count_list_le_length [of "map ?G (drop ?b ?ks)" d] cd bn by simp
  have "\<forall>i. ?b \<le> i \<and> i < ?b + ?cnt \<longrightarrow> ?G (?ks ! i) = d"
  proof (intro allI impI, rule ccontr)
    fix i assume i: "?b \<le> i \<and> i < ?b + ?cnt" and ne: "?G (?ks ! i) \<noteq> d"
    from i cn have iN: "i < ?n" by simp
    with i above [of i] ne have gt: "d < ?G (?ks ! i)" by simp
    have z: "count_list (map ?G (drop i ?ks)) d = 0"
    proof (rule count_list_zero_if)
      fix k assume k: "k < length (drop i ?ks)"
      then have "i + k < ?n" by simp
      with srt have "?G (?ks ! i) \<le> ?G (?ks ! (i + k))" by simp
      with gt k show "?G (drop i ?ks ! k) \<noteq> d" by simp
    qed
    have "drop ?b ?ks = take (i - ?b) (drop ?b ?ks) @ drop i ?ks"
      using i by (metis append_take_drop_id drop_drop le_add_diff_inverse2)
    then have "count_list (map ?G (drop ?b ?ks)) d
        = count_list (map ?G (take (i - ?b) (drop ?b ?ks))) d + count_list (map ?G (drop i ?ks)) d"
      by (metis count_list_append map_append)
    with z cd have "?cnt = count_list (map ?G (take (i - ?b) (drop ?b ?ks))) d" by simp
    also have "\<dots> \<le> length (map ?G (take (i - ?b) (drop ?b ?ks)))" by (rule count_list_le_length)
    also have "\<dots> \<le> i - ?b" by simp
    finally have "?cnt \<le> i - ?b" .
    with i show False by linarith
  qed
  with cn show ?thesis by blast
qed

lemma sort_bucket_noop_step:
  assumes inv: "noop_run_inv tp g1 K d s" and d: "d < MAX_DEVICES_PER_CLUSTER tp"
    and srt: "\<forall>i j. i \<le> j \<and> j < length K
       \<longrightarrow> GLOBAL_DEVICE_NUM tp (K ! i) \<le> GLOBAL_DEVICE_NUM tp (K ! j)"
  shows "\<exists>s'. sort_bucket tp (upred (length K)) d s = (None, s') \<and> noop_run_inv tp g1 K (Suc d) s'"
proof -
  from inv have b: "buckets_inv tp d s" and k: "m_hParticleKeys s = K" and g: "gdata s = g1"
    by (simp_all add: noop_run_inv_def)
  let ?s1 = "s\<lparr>nextBucketBeginsAt := nextBucketBeginsAt s + particlesPerGlobalDevice s d,
               rightB := upred (length K)\<rparr>"
  from bucket_full_when_sorted [OF b] srt k
  have full: "nextBucketBeginsAt s + particlesPerGlobalDevice s d \<le> length K"
     "\<forall>i. nextBucketBeginsAt s \<le> i \<and> i < nextBucketBeginsAt s + particlesPerGlobalDevice s d
            \<longrightarrow> GLOBAL_DEVICE_NUM tp (K ! i) = d" by simp_all
  from b have lb: "leftB s = nextBucketBeginsAt s" by (simp add: buckets_inv_def)
  have "bucketPass tp d ?s1 = (None, ?s1\<lparr>leftB := nextBucketBeginsAt ?s1\<rparr>)"
    using full lb k by (intro bucketPass_noop) simp_all
  then have run: "sort_bucket tp (upred (length K)) d s = (None, ?s1\<lparr>leftB := nextBucketBeginsAt ?s1\<rparr>)"
    using d by (simp add: sort_bucket_def)
  from sort_bucket_step [OF b d] k run
  have "buckets_inv tp (Suc d) (?s1\<lparr>leftB := nextBucketBeginsAt ?s1\<rparr>)" by auto
  then have "noop_run_inv tp g1 K (Suc d) (?s1\<lparr>leftB := nextBucketBeginsAt ?s1\<rparr>)"
    using k g by (simp add: noop_run_inv_def)
  with run show ?thesis by blast
qed

lemma sort_buckets_noop:
  assumes wf: "sort_wf tp g"
    and srt: "\<forall>i j. i \<le> j \<and> j < totParticles g \<longrightarrow> bucket_of tp g i \<le> bucket_of tp g j"
  shows "\<exists>s. sort_buckets tp g = (None, s)
          \<and> BUFFER_HASH (gdata s) = BUFFER_HASH g \<and> BUFFER_INFO (gdata s) = BUFFER_INFO g
          \<and> otherBuffers (gdata s) = otherBuffers g \<and> events (gdata s) = events g"
proof -
  let ?n = "totParticles g"
  let ?G = "GLOBAL_DEVICE_NUM tp"
  let ?D = "totDevices tp"
  from sort_counting [OF wf] obtain s1 parts pp where
    run1: "for_loop [0..<?n] (count_particle tp) (sort_prepare tp g) = (None, s1)"
    and K: "m_hParticleKeys s1 = map (device_of_particle tp g) [0..<?n]"
    and cnts: "\<And>c. particlesPerGlobalDevice s1 c = count_list (map ?G (m_hParticleKeys s1)) c"
    and g1: "gdata s1 = g\<lparr>processParticles := pp, s_hPartsPerDevice := parts\<rparr>"
    by blast
  let ?K = "m_hParticleKeys s1"
  let ?g2 = "sort_offsets tp (gdata s1)"
  let ?s2 = "s1\<lparr>gdata := ?g2, leftB := 0, nextBucketBeginsAt := 0\<rparr>"
  have lenK: "length ?K = ?n" using K by simp
  have g2f: "s_hDeviceMap ?g2 = s_hDeviceMap g" "BUFFER_HASH ?g2 = BUFFER_HASH g"
    "BUFFER_INFO ?g2 = BUFFER_INFO g" "otherBuffers ?g2 = otherBuffers g" "events ?g2 = events g"
    using g1 by simp_all
  have km2: "keys_match tp ?s2"
    using wf K g2f by (simp add: keys_match_def sort_wf_def device_of_particle_def)
  have binv: "buckets_inv tp 0 ?s2"
    using cnts km2 by (simp add: buckets_inv_def)
  have init: "noop_run_inv tp ?g2 ?K 0 ?s2"
    using binv by (simp add: noop_run_inv_def)
  have D: "0 < ?D" "?D \<le> MAX_DEVICES_PER_CLUSTER tp" using wf by (simp_all add: sort_wf_def)
  have srtK: "\<forall>i j. i \<le> j \<and> j < length ?K \<longrightarrow> ?G (?K ! i) \<le> ?G (?K ! j)"
    using srt K by (simp add: bucket_of_def)
  have step: "\<And>i s. i < ?D - 1 \<Longrightarrow> noop_run_inv tp ?g2 ?K i s \<Longrightarrow>
      \<exists>s'. sort_bucket tp (upred ?n) i s = (None, s') \<and> noop_run_inv tp ?g2 ?K (Suc i) s'"
  proof -
    fix i s assume i: "i < ?D - 1" and inv: "noop_run_inv tp ?g2 ?K i s"
    from i D have iM: "i < MAX_DEVICES_PER_CLUSTER tp" by simp
    from sort_bucket_noop_step [OF inv iM srtK] lenK
    show "\<exists>s'. sort_bucket tp (upred ?n) i s = (None, s') \<and> noop_run_inv tp ?g2 ?K (Suc i) s'"
      by simp
  qed
  from for_loop_invariant [of "?D - 1" "noop_run_inv tp ?g2 ?K" "sort_bucket tp (upred ?n)" ?s2,
      OF step init]
  obtain s3 where run3: "for_loop [0..<?D - 1] (sort_bucket tp (upred ?n)) ?s2 = (None, s3)"
    and inv3: "noop_run_inv tp ?g2 ?K (?D - 1) s3" by blast
  have run: "sort_buckets tp g = (None, s3)"
    using run1 run3 D(1) g1 by (simp add: sort_buckets_def upred_pos)
  from inv3 have "gdata s3 = ?g2" by (simp add: noop_run_inv_def)
  with run g2f show ?thesis by simp
qed

lemma printf_fields [simp]:
  "BUFFER_HASH (printf m g) = BUFFER_HASH g" "BUFFER_INFO (printf m g) = BUFFER_INFO g"
  "otherBuffers (printf m g) = otherBuffers g" "events (printf m g) = events g"
  "s_hDeviceMap (printf m g) = s_hDeviceMap g" "totParticles (printf m g) = totParticles g"
  "s_hPartsPerDevice (printf m g) = s_hPartsPerDevice g"
  "console (printf m g) = console g @ [m]"
  by (simp_all add: printf_def)

lemma foldl_printf:
  "\<exists>c. foldl (\<lambda>g' d. printf (f g' d) g') g ds = g\<lparr>console := c\<rparr>"
proof (induction ds arbitrary: g)
  case Nil
  show ?case by (rule exI [of _ "console g"]) simp
next
  case (Cons d ds)
  from Cons.IH [of "printf (f g d) g"] obtain c where
    c: "foldl (\<lambda>g' d. printf (f g' d) g') (printf (f g d) g) ds = (printf (f g d) g)\<lparr>console := c\<rparr>"
    by (rule exE)
  show ?case by (rule exI [of _ c]) (simp add: c, simp add: printf_def)
qed

lemma print_assigned_fields [simp]:
  "BUFFER_HASH (print_assigned tp g) = BUFFER_HASH g"
  "BUFFER_INFO (print_assigned tp g) = BUFFER_INFO g"
  "otherBuffers (print_assigned tp g) = otherBuffers g"
  "events (print_assigned tp g) = events g"
  "s_hDeviceMap (print_assigned tp g) = s_hDeviceMap g"
  "totParticles (print_assigned tp g) = totParticles g"
  "s_hPartsPerDevice (print_assigned tp g) = s_hPartsPerDevice g"
proof -
  from foldl_printf [of "\<lambda>g' d. AssignedParts d (s_hPartsPerDevice g' d)" g "[0..<devices tp]"]
  obtain c where c: "print_assigned tp g = g\<lparr>console := c\<rparr>"
    unfolding print_assigned_def by (rule exE)
  show "BUFFER_HASH (print_assigned tp g) = BUFFER_HASH g"
    "BUFFER_INFO (print_assigned tp g) = BUFFER_INFO g"
    "otherBuffers (print_assigned tp g) = otherBuffers g"
    "events (print_assigned tp g) = events g"
    "s_hDeviceMap (print_assigned tp g) = s_hDeviceMap g"
    "totParticles (print_assigned tp g) = totParticles g"
    "s_hPartsPerDevice (print_assigned tp g) = s_hPartsPerDevice g"
    by (simp_all add: c)
qed

lemma print_check_fields [simp]:
  "BUFFER_HASH (print_check tp g) = BUFFER_HASH g"
  "BUFFER_INFO (print_check tp g) = BUFFER_INFO g"
  "otherBuffers (print_check tp g) = otherBuffers g"
  "events (print_check tp g) = events g"
  "s_hDeviceMap (print_check tp g) = s_hDeviceMap g"
  "totParticles (print_check tp g) = totParticles g"
  "s_hPartsPerDevice (print_check tp g) = s_hPartsPerDevice g"
  by (simp_all add: print_check_def Let_def)

lemma scanRight_abort: "scanRight tp keys cur r = Inl e \<Longrightarrow> e = OutOfBoundsAccess"
  by (induction r) (auto split: if_splits)

lemma bucketPass_abort: "bucketPass tp cur s = (Some e, s') \<Longrightarrow> e = OutOfBoundsAccess"
proof (induction tp cur s rule: bucketPass.induct)
  case (1 tp cur s)
  from "1.prems" show ?case
    apply (subst (asm) bucketPass.simps)
    apply (auto split: if_splits sum.splits dest: scanRight_abort "1.IH")
    done
qed

lemma for_loop_abort:
  "(\<And>i s e s'. body i s = (Some e, s') \<Longrightarrow> P e) \<Longrightarrow> for_loop ns body s = (Some e, s') \<Longrightarrow> P e"
  by (induction ns arbitrary: s) (auto split: prod.splits option.splits)

lemma count_particle_abort: "count_particle tp p s = (Some e, s') \<Longrightarrow> e = OutOfBoundsAccess"
  by (auto simp: count_particle_def Let_def split: if_splits)

lemma sort_bucket_abort: "sort_bucket tp m cur s = (Some e, s') \<Longrightarrow> e = OutOfBoundsAccess"
  by (auto simp: sort_bucket_def split: if_splits dest: bucketPass_abort)

lemma count_loop_abort:
  "for_loop ns (count_particle tp) s = (Some e, s') \<Longrightarrow> e = OutOfBoundsAccess"
  by (erule for_loop_abort [rotated]) (rule count_particle_abort)

lemma bucket_loop_abort:
  "for_loop ns (sort_bucket tp m) s = (Some e, s') \<Longrightarrow> e = OutOfBoundsAccess"
  by (erule for_loop_abort [rotated]) (rule sort_bucket_abort)

lemma sort_buckets_abort: "sort_buckets tp g = (Some e, s') \<Longrightarrow> e = OutOfBoundsAccess"
  unfolding sort_buckets_def
  by (auto split: prod.splits option.splits dest: count_loop_abort bucket_loop_abort)

lemma example_sort_wf: "sort_wf example_topology example_gdata"
  by (simp add: sort_wf_def example_topology_def example_gdata_def device_of_particle_def
      less_Suc_eq eval_nat_numeral)

lemma example_sorted_wf: "sort_wf example_topology example_sorted_gdata"
  by (simp add: sort_wf_def example_topology_def example_gdata_def example_sorted_gdata_def
      device_of_particle_def less_Suc_eq eval_nat_numeral)

lemma example_sorted_input: "partitioned example_topology example_sorted_gdata"
  by (auto simp: partitioned_def bucket_of_def example_topology_def example_gdata_def
      example_sorted_gdata_def device_of_particle_def less_Suc_eq le_Suc_eq eval_nat_numeral)

subsection \<open>Claims about the partitioner\<close>

text \<open>
  C1. For every particle array and every cell-to-device map that is well formed for the
  run (\<open>sort_wf\<close>: the array reads are in range and every cell is assigned to one of
  the \<^verbatim>\<open>totDevices\<close> devices), \<^verbatim>\<open>sortParticlesByHash\<close> returns normally, and afterwards
  the buckets of the particles are non-decreasing along the array (for all indices
  \<open>i < j\<close>, \<open>bucket i \<le> bucket j\<close>), and for every device \<open>d\<close> of the node
  \<^verbatim>\<open>s_hPartsPerDevice[d]\<close> is the number of particles that the device map assigns to
  device \<open>d\<close>, counted on the sorted array and, with the same result, on the array
  before the sort.
\<close>

theorem sortParticlesByHash_sorted_and_counted:
  assumes "sort_wf tp g"
  shows "fst (sortParticlesByHash tp g) = None
       \<and> (\<forall>i j. i < j \<and> j < totParticles g
             \<longrightarrow> bucket_of tp (snd (sortParticlesByHash tp g)) i
                 \<le> bucket_of tp (snd (sortParticlesByHash tp g)) j)
       \<and> (\<forall>d < MAX_DEVICES_PER_NODE tp.
             s_hPartsPerDevice (snd (sortParticlesByHash tp g)) d
               = count_on_device tp (snd (sortParticlesByHash tp g)) d
           \<and> s_hPartsPerDevice (snd (sortParticlesByHash tp g)) d = count_on_device tp g d)"
proof -
  from sort_buckets_correct [OF assms] obtain s where s: "sort_buckets tp g = (None, s)"
    and tot: "totParticles (gdata s) = totParticles g"
    and srt: "\<forall>i j. i \<le> j \<and> j < totParticles g
                \<longrightarrow> bucket_of tp (gdata s) i \<le> bucket_of tp (gdata s) j"
    and cnt: "\<forall>d < MAX_DEVICES_PER_NODE tp.
                s_hPartsPerDevice (gdata s) d = count_on_device tp g d
                \<and> s_hPartsPerDevice (gdata s) d = count_on_device tp (gdata s) d"
    by blast
  let ?g' = "print_check tp (print_assigned tp (gdata s))"
  have res: "sortParticlesByHash tp g = (None, ?g')"
    using s by (simp add: sortParticlesByHash_def)
  have b: "\<And>p. bucket_of tp ?g' p = bucket_of tp (gdata s) p"
    by (simp add: bucket_of_def device_of_particle_def)
  have c: "\<And>d. count_on_device tp ?g' d = count_on_device tp (gdata s) d"
    by (simp add: count_on_device_def device_of_particle_def)
  from srt cnt show ?thesis by (auto simp add: res b c)
qed

theorem sortParticlesByHash_sorted_and_counted_witness:
  "sort_wf example_topology example_gdata
   \<and> fst (sortParticlesByHash example_topology example_gdata) = None
   \<and> bucket_of example_topology (snd (sortParticlesByHash example_topology example_gdata)) 0
       \<le> bucket_of example_topology (snd (sortParticlesByHash example_topology example_gdata)) 3
   \<and> s_hPartsPerDevice (snd (sortParticlesByHash example_topology example_gdata)) 1
       = count_on_device example_topology (snd (sortParticlesByHash example_topology example_gdata)) 1
   \<and> s_hPartsPerDevice (snd (sortParticlesByHash example_topology example_gdata)) 1
       = count_on_device example_topology example_gdata 1"
proof -
  have "(0::nat) < 3 \<and> 3 < totParticles example_gdata"
    "(1::nat) < MAX_DEVICES_PER_NODE example_topology"
    by (simp_all add: example_gdata_def example_topology_def)
  then show ?thesis
    using sortParticlesByHash_sorted_and_counted [OF example_sort_wf] example_sort_wf
    by blast
qed

text \<open>
  \<^verbatim>\<open>sortParticlesByHash\<close> has no \<^verbatim>\<open>throw\<close>: on a well-formed input the counts are those of
  the keys themselves, every right-to-left scan finds a particle of the current bucket
  and the function returns normally; on any input, the only way it can end abnormally is
  an array access out of bounds, which is not an exception.
\<close>

lemma sortParticlesByHash_has_no_throw:
  "(sort_wf tp g \<longrightarrow> fst (sortParticlesByHash tp g) = None)
   \<and> (\<forall>e. fst (sortParticlesByHash tp g) = Some e \<longrightarrow> \<not> is_exception e)"
proof -
  have "fst (sortParticlesByHash tp g) = None" if "sort_wf tp g"
    using sort_buckets_correct [OF that] by (auto simp: sortParticlesByHash_def)
  moreover have "\<not> is_exception e" if "fst (sortParticlesByHash tp g) = Some e" for e
  proof -
    from that obtain s where "sort_buckets tp g = (Some e, s)"
      by (auto simp: sortParticlesByHash_def split: prod.splits option.splits)
    then have "e = OutOfBoundsAccess" by (rule sort_buckets_abort)
    then show ?thesis by simp
  qed
  ultimately show ?thesis by blast
qed


text \<open>
  C6. On a well-formed input that is already partitioned by device (\<open>partitioned\<close>:
  the buckets are non-decreasing along the array), \<^verbatim>\<open>sortParticlesByHash\<close> calls \<^verbatim>\<open>particleSwap\<close> not
  once (the list of calls is unchanged) and leaves every host buffer as it was. This
  covers empty buckets and the single-device input, which satisfy the hypotheses. On
  any well-formed input, after the one pass the first \<^verbatim>\<open>totParticles\<close> entries of the
  hash buffer are a permutation of what they were (each particle keeps its bucket) and
  the buckets are non-decreasing along the array.
\<close>

theorem partition_pass_idempotent:
  assumes "sort_wf tp g"
  shows "(partitioned tp g
          \<longrightarrow> events (snd (sortParticlesByHash tp g)) = events g
            \<and> BUFFER_HASH (snd (sortParticlesByHash tp g)) = BUFFER_HASH g
            \<and> BUFFER_INFO (snd (sortParticlesByHash tp g)) = BUFFER_INFO g
            \<and> otherBuffers (snd (sortParticlesByHash tp g)) = otherBuffers g)
       \<and> perm_prefix (totParticles g) (BUFFER_HASH g) (BUFFER_HASH (snd (sortParticlesByHash tp g)))
       \<and> totParticles (snd (sortParticlesByHash tp g)) = totParticles g
       \<and> partitioned tp (snd (sortParticlesByHash tp g))"
proof -
  from sort_buckets_correct [OF assms] obtain s where s: "sort_buckets tp g = (None, s)"
    and tot: "totParticles (gdata s) = totParticles g"
    and perm: "perm_prefix (totParticles g) (BUFFER_HASH g) (BUFFER_HASH (gdata s))"
    and srt: "\<forall>i j. i \<le> j \<and> j < totParticles g
                \<longrightarrow> bucket_of tp (gdata s) i \<le> bucket_of tp (gdata s) j"
    by blast
  let ?g' = "print_check tp (print_assigned tp (gdata s))"
  have res: "sortParticlesByHash tp g = (None, ?g')"
    using s by (simp add: sortParticlesByHash_def)
  have b: "\<And>p. bucket_of tp ?g' p = bucket_of tp (gdata s) p"
    by (simp add: bucket_of_def device_of_particle_def)
  have noop: "events ?g' = events g \<and> BUFFER_HASH ?g' = BUFFER_HASH g
              \<and> BUFFER_INFO ?g' = BUFFER_INFO g \<and> otherBuffers ?g' = otherBuffers g"
    if "partitioned tp g"
    using sort_buckets_noop [OF assms] that s by (auto simp: partitioned_def)
  from perm srt noop tot show ?thesis by (auto simp add: res b partitioned_def)
qed

theorem partition_pass_idempotent_witness:
  "sort_wf example_topology example_sorted_gdata
   \<and> partitioned example_topology example_sorted_gdata
   \<and> events (snd (sortParticlesByHash example_topology example_sorted_gdata))
       = events example_sorted_gdata
   \<and> BUFFER_HASH (snd (sortParticlesByHash example_topology example_sorted_gdata)) = [0, 0, 1, 1]
   \<and> partitioned example_topology (snd (sortParticlesByHash example_topology example_sorted_gdata))"
proof -
  have "BUFFER_HASH example_sorted_gdata = [0, 0, 1, 1]"
    by (simp add: example_sorted_gdata_def)
  then show ?thesis
    using partition_pass_idempotent [OF example_sorted_wf] example_sorted_wf example_sorted_input
    by simp
qed

section \<open>The main loop\<close>

subsection \<open>Rules for procedures\<close>

lemma hoareI:
  "(\<And>g g'. P g \<Longrightarrow> p g = (None, g') \<Longrightarrow> Q g')
   \<Longrightarrow> (\<And>g g' e. P g \<Longrightarrow> p g = (Some e, g') \<Longrightarrow> E e g') \<Longrightarrow> hoare P p Q E"
  unfolding hoare_def by blast

lemma hoareD_normal: "hoare P p Q E \<Longrightarrow> P g \<Longrightarrow> p g = (None, g') \<Longrightarrow> Q g'"
  unfolding hoare_def by blast

lemma hoareD_abort: "hoare P p Q E \<Longrightarrow> P g \<Longrightarrow> p g = (Some e, g') \<Longrightarrow> E e g'"
  unfolding hoare_def by blast

lemma seq_None_iff: "seq p q g = (None, g') \<longleftrightarrow> (\<exists>g1. p g = (None, g1) \<and> q g1 = (None, g'))"
  by (auto simp: seq_def split: prod.splits option.splits)

lemma seq_Some_iff:
  "seq p q g = (Some e, g') \<longleftrightarrow>
     p g = (Some e, g') \<or> (\<exists>g1. p g = (None, g1) \<and> q g1 = (Some e, g'))"
  by (auto simp: seq_def split: prod.splits option.splits)

lemma hoare_skip: "hoare P skip P E"
  by (simp add: hoare_def skip_def)

lemma hoare_throw: "(\<And>g. P g \<Longrightarrow> E e g) \<Longrightarrow> hoare P (throw e) Q E"
  by (simp add: hoare_def throw_def)

lemma hoare_host: "(\<And>g. P g \<Longrightarrow> Q (f g)) \<Longrightarrow> hoare P (host f) Q E"
  by (auto simp: hoare_def host_def)

lemma hoare_seq:
  assumes p: "hoare P p R E" and q: "hoare R q Q E"
  shows "hoare P (seq p q) Q E"
proof (rule hoareI)
  fix g g' assume P: "P g" and r: "seq p q g = (None, g')"
  from r obtain g1 where 1: "p g = (None, g1)" "q g1 = (None, g')"
    unfolding seq_None_iff by blast
  from hoareD_normal [OF p P 1(1)] have "R g1" .
  from hoareD_normal [OF q this 1(2)] show "Q g'" .
next
  fix g g' e assume P: "P g" and r: "seq p q g = (Some e, g')"
  from r consider "p g = (Some e, g')" | g1 where "p g = (None, g1)" "q g1 = (Some e, g')"
    unfolding seq_Some_iff by blast
  then show "E e g'"
  proof cases
    case 1
    from hoareD_abort [OF p P 1] show ?thesis .
  next
    case 2
    from hoareD_normal [OF p P 2(1)] have "R g1" .
    from hoareD_abort [OF q this 2(2)] show ?thesis .
  qed
qed

lemma hoare_if_then: "hoare P p P E \<Longrightarrow> hoare P (if_then c p) P E"
  unfolding hoare_def if_then_def by (metis Pair_inject option.distinct(1))

lemma hoare_ifelse: "hoare P p Q E \<Longrightarrow> hoare P q Q E \<Longrightarrow> hoare P (ifelse c p q) Q E"
  unfolding hoare_def ifelse_def by metis

lemma hoare_block_Nil: "hoare P (block []) P E"
  by (simp add: hoare_skip)

lemma hoare_block_Cons: "hoare P p P E \<Longrightarrow> hoare P (block ps) P E \<Longrightarrow> hoare P (block (p # ps)) P E"
  by (simp add: hoare_seq)

lemma hoare_block_map: "(\<And>x. hoare P (f x) P E) \<Longrightarrow> hoare P (block (map f xs)) P E"
proof (induction xs)
  case Nil
  show ?case by (simp add: hoare_skip)
next
  case (Cons x xs)
  have "hoare P (seq (f x) (block (map f xs))) P E"
    using Cons.prems Cons.IH [OF Cons.prems] by (rule hoare_seq)
  then show ?case by simp
qed

lemma hoare_weaken:
  assumes h: "hoare P' p Q' E'" and P: "\<And>g. P g \<Longrightarrow> P' g" and Q: "\<And>g. Q' g \<Longrightarrow> Q g"
    and E: "\<And>e g. E' e g \<Longrightarrow> E e g"
  shows "hoare P p Q E"
proof (rule hoareI)
  fix g g' assume "P g" "p g = (None, g')"
  with hoareD_normal [OF h P] Q show "Q g'" by blast
next
  fix g g' e assume "P g" "p g = (Some e, g')"
  with hoareD_abort [OF h P] E show "E e g'" by blast
qed

lemmas hoare_structure =
  hoare_block_Nil hoare_block_Cons hoare_block_map hoare_if_then hoare_ifelse hoare_skip

text \<open>The command sequences preserve whatever their leaves preserve.\<close>

lemma saveParticles_hoare:
  assumes cmd: "\<And>c f a. hoare P (doCommand W c f a) P E"
    and oi: "\<And>b. hoare P (set_only_internal b) P E"
  shows "hoare P (saveParticles cfg W engines write_flags) P E"
  unfolding saveParticles_def run_postprocess_def doCommand0_def doWrite_def
  by (intro hoare_structure cmd oi)

lemma move_bodies_hoare:
  assumes cmd: "\<And>c f a. hoare P (doCommand W c f a) P E"
  shows "hoare P (move_bodies cfg W step) P E"
  unfolding move_bodies_def doCommand0_def
  by (intro hoare_structure cmd)

lemma saBoundaryConditions_hoare:
  assumes cmd: "\<And>c f a. hoare P (doCommand W c f a) P E"
    and oi: "\<And>b. hoare P (set_only_internal b) P E"
    and thr: "\<And>m. hoare P (throw (RuntimeError m)) P E"
  shows "hoare P (saBoundaryConditions cfg W cFlag) P E"
  unfolding saBoundaryConditions_def doCommand0_def Let_def
  by (intro hoare_structure cmd oi thr)

lemma buildNeibList_hoare:
  assumes cmd: "\<And>c f a. hoare P (doCommand W c f a) P E"
    and oi: "\<And>b. hoare P (set_only_internal b) P E"
    and upd: "hoare P (updateArrayIndices cfg W) P E"
  shows "hoare P (buildNeibList cfg W) P E"
  unfolding buildNeibList_def doCommand0_def
  by (intro hoare_structure cmd oi upd)

lemma compute_forces_hoare:
  assumes cmd: "\<And>c f a. hoare P (doCommand W c f a) P E"
    and oi: "\<And>b. hoare P (set_only_internal b) P E"
  shows "hoare P (compute_forces cfg W step) P E"
  unfolding compute_forces_def doCommand0_def Let_def
  by (intro hoare_structure cmd oi saveParticles_hoare)

lemma run_filter_hoare:
  assumes cmd: "\<And>c f a. hoare P (doCommand W c f a) P E"
    and oi: "\<And>b. hoare P (set_only_internal b) P E"
  shows "hoare P (run_filter cfg W flt) P E"
  unfolding run_filter_def doCommand0_def
  by (intro hoare_structure cmd oi)

lemma loop_commands_hoare:
  assumes cmd: "\<And>c f a. hoare P (doCommand W c f a) P E"
    and oi: "\<And>b. hoare P (set_only_internal b) P E"
    and thr: "\<And>m. hoare P (throw (RuntimeError m)) P E"
    and upd: "hoare P (updateArrayIndices cfg W) P E"
    and pc: "hoare P (host (update_particlesCreated cfg)) P E"
  shows "hoare P (loop_commands cfg W) P E"
  unfolding loop_commands_def doCommand0_def doCallBacks_def Let_def
  by (intro hoare_structure cmd oi pc
      buildNeibList_hoare run_filter_hoare compute_forces_hoare move_bodies_hoare
      saBoundaryConditions_hoare thr upd)

lemma rc_frame_refl: "rc_frame g g"
  by (simp add: rc_frame_def)

lemma rc_frame_trans: "rc_frame g g' \<Longrightarrow> rc_frame g' g'' \<Longrightarrow> rc_frame g g''"
  by (auto simp: rc_frame_def)

lemma for_loop_relation:
  assumes step: "\<And>i s x s'. body i s = (x, s') \<Longrightarrow> R s s'"
    and refl: "\<And>s. R s s" and trans: "\<And>s s' s''. R s s' \<Longrightarrow> R s' s'' \<Longrightarrow> R s s''"
  shows "for_loop ns body s = (x, s') \<Longrightarrow> R s s'"
proof (induction ns arbitrary: s)
  case Nil
  then show ?case using refl by simp
next
  case (Cons i ns)
  obtain y s1 where b: "body i s = (y, s1)" by (cases "body i s")
  from step [OF b] have r1: "R s s1" .
  show ?case
  proof (cases y)
    case None
    with Cons.prems b have "for_loop ns body s1 = (x, s')" by simp
    from Cons.IH [OF this] r1 trans show ?thesis by blast
  next
    case (Some e)
    with Cons.prems b have "s' = s1" by simp
    with r1 show ?thesis by simp
  qed
qed

lemma rc_reset_frame: "rc_reset i r = (x, r') \<Longrightarrow> rc_frame (rc_gdata r) (rc_gdata r')"
  by (auto simp: rc_reset_def Let_def rc_frame_def split: if_splits)

lemma rc_fill_frame: "rc_fill i r = (x, r') \<Longrightarrow> rc_frame (rc_gdata r) (rc_gdata r')"
  by (auto simp: rc_fill_def Let_def rc_frame_def printf_def split: if_splits)

lemma rc_missing_frame: "rc_missing i r = (x, r') \<Longrightarrow> rc_frame (rc_gdata r) (rc_gdata r')"
  by (auto simp: rc_missing_def Let_def rc_frame_def printf_def split: if_splits)

lemma rc_loop_frame:
  assumes "\<And>i r x r'. body i r = (x, r') \<Longrightarrow> rc_frame (rc_gdata r) (rc_gdata r')"
  shows "for_loop ns body r = (x, r') \<Longrightarrow> rc_frame (rc_gdata r) (rc_gdata r')"
  by (rule for_loop_relation [where R = "\<lambda>r r'. rc_frame (rc_gdata r) (rc_gdata r')" and body = body])
     (auto intro: assms rc_frame_refl rc_frame_trans)

lemma rc_recap_frame: "rc_frame g (rc_recap tp g)"
proof -
  have "\<And>g. rc_frame g
     (foldl (\<lambda>g' d. printf (RecapDevice d (s_hPartsPerDevice g' d) (s_hStartPerDevice g' d)) g')
       g ds)" for ds
  proof (induction ds)
    case Nil
    show ?case by (simp add: rc_frame_refl)
  next
    case (Cons d ds)
    have "rc_frame g (printf (RecapDevice d (s_hPartsPerDevice g d) (s_hStartPerDevice g d)) g)"
      by (simp add: rc_frame_def printf_def)
    with Cons [of "printf (RecapDevice d (s_hPartsPerDevice g d) (s_hStartPerDevice g d)) g"]
    show ?case by (auto intro: rc_frame_trans)
  qed
  moreover have "rc_frame g (printf (Line ''Recap of devices after roll call:'') g)"
    by (simp add: rc_frame_def printf_def)
  ultimately show ?thesis unfolding rc_recap_def by (blast intro: rc_frame_trans)
qed

lemma rollCallParticles_frame:
  assumes "rollCallParticles tp g = (x, g')"
  shows "rc_frame g g'"
proof -
  let ?n = "processParticles g (mpi_rank tp)"
  let ?r0 = "\<lparr>rc_gdata = g, all_normal = True,
                first_double_warned = False, first_missing_warned = False\<rparr>"
  obtain x1 r1 where 1: "for_loop [0..<?n] rc_reset ?r0 = (x1, r1)" by (cases "for_loop [0..<?n] rc_reset ?r0")
  obtain x2 r2 where 2: "for_loop [0..<?n] rc_fill r1 = (x2, r2)" by (cases "for_loop [0..<?n] rc_fill r1")
  obtain x3 r3 where 3: "for_loop [0..<?n] rc_missing r2 = (x3, r3)" by (cases "for_loop [0..<?n] rc_missing r2")
  have f1: "rc_frame g (rc_gdata r1)"
    using rc_loop_frame [of rc_reset, OF rc_reset_frame 1] by simp
  have f2: "rc_frame (rc_gdata r1) (rc_gdata r2)"
    using rc_loop_frame [of rc_fill, OF rc_fill_frame 2] by simp
  have f3: "rc_frame (rc_gdata r2) (rc_gdata r3)"
    using rc_loop_frame [of rc_missing, OF rc_missing_frame 3] by simp
  note f12 = rc_frame_trans [OF f1 f2]
  note f123 = rc_frame_trans [OF f12 f3]
  from assms 1 2 3 have "g' = rc_gdata r1 \<or> g' = rc_gdata r2 \<or> g' = rc_gdata r3
      \<or> g' = rc_recap tp (rc_gdata r3)"
    by (auto simp: rollCallParticles_def Let_def split: option.splits if_splits)
  with f1 f12 f123 rc_frame_trans [OF f123 rc_recap_frame] show ?thesis by blast
qed

lemma count_devices_eq:
  "count_devices tp g =
     (g\<lparr>s_hPartsPerDevice :=
          (\<lambda>d. if d < devices tp then numInternalParticles g d else s_hPartsPerDevice g d)\<rparr>,
      foldl uadd 0 (map (numInternalParticles g) [0..<devices tp]))"
proof -
  let ?step = "\<lambda>(g', processCount) d.
              (g'\<lparr>s_hPartsPerDevice := (s_hPartsPerDevice g')(d := numInternalParticles g' d)\<rparr>,
               uadd processCount (numInternalParticles g' d))"
  have "\<exists>f. foldl ?step (g, 0) [0..<n]
           = (g\<lparr>s_hPartsPerDevice := f\<rparr>, foldl uadd 0 (map (numInternalParticles g) [0..<n]))
         \<and> f = (\<lambda>d. if d < n then numInternalParticles g d else s_hPartsPerDevice g d)" for n
  proof (induction n)
    case 0
    show ?case by (rule exI [of _ "s_hPartsPerDevice g"]) simp
  next
    case (Suc n)
    then obtain f where f: "foldl ?step (g, 0) [0..<n]
           = (g\<lparr>s_hPartsPerDevice := f\<rparr>, foldl uadd 0 (map (numInternalParticles g) [0..<n]))"
       "f = (\<lambda>d. if d < n then numInternalParticles g d else s_hPartsPerDevice g d)" by blast
    have upd: "f(n := numInternalParticles g n)
          = (\<lambda>d. if d < Suc n then numInternalParticles g d else s_hPartsPerDevice g d)"
      unfolding f(2) by (rule ext) simp
    have "foldl ?step (g, 0) [0..<Suc n] = ?step (foldl ?step (g, 0) [0..<n]) n"
      by simp
    also have "\<dots> = ?step (g\<lparr>s_hPartsPerDevice := f\<rparr>,
                           foldl uadd 0 (map (numInternalParticles g) [0..<n])) n"
      by (simp only: f(1))
    also have "\<dots> = (g\<lparr>s_hPartsPerDevice := f(n := numInternalParticles g n)\<rparr>,
                      foldl uadd 0 (map (numInternalParticles g) [0..<Suc n]))"
      by simp
    finally show ?case using upd by blast
  qed
  then show ?thesis unfolding count_devices_def by blast
qed

lemma hoare_compose_pre:
  assumes "\<And>g. P g \<Longrightarrow> P' (f g)" and "\<And>g. hoare P' (p g) Q E"
  shows "hoare P (\<lambda>g. p g (f g)) Q E"
  using assms unfolding hoare_def by blast

lemma warn_count_changed_hoare:
  assumes cmd: "\<And>c f a. hoare P (doCommand W c f a) P E"
    and rc: "hoare P (rollCallParticles (topology cfg)) P E"
    and pr: "\<And>m g. P g \<Longrightarrow> P (printf m g)"
  shows "hoare P (warn_count_changed cfg W new) P E"
  unfolding warn_count_changed_def doCommand0_def
  by (intro hoare_seq [where R = P] hoare_if_then hoare_host cmd rc pr)

lemma reconcile_total_hoare:
  assumes tot: "\<And>g n. P g \<Longrightarrow> P (g\<lparr>totParticles := n\<rparr>)"
    and cmd: "\<And>c f a. hoare P (doCommand W c f a) P E"
    and rc: "hoare P (rollCallParticles (topology cfg)) P E"
    and pr: "\<And>m g. P g \<Longrightarrow> P (printf m g)"
  shows "hoare P (reconcile_total cfg W) P E"
proof -
  have branch: "hoare P
      (seq (if_then (\<lambda>g'. totParticles g' < new \<or> \<not> no_leak_warning (clOptions cfg))
                  (warn_count_changed cfg W new))
               (host (\<lambda>g'. g'\<lparr>totParticles := new\<rparr>))) P E" for new
    by (intro hoare_seq [where R = P] hoare_if_then hoare_host tot
        warn_count_changed_hoare cmd rc pr)
  show ?thesis
  proof (rule hoareI)
    fix g g' assume "P g" "reconcile_total cfg W g = (None, g')"
    then show "P g'"
      using tot hoareD_normal [OF branch]
      by (auto simp: reconcile_total_def Let_def split: if_splits)
  next
    fix g g' e assume "P g" "reconcile_total cfg W g = (Some e, g')"
    then show "E e g'"
      using hoareD_abort [OF branch]
      by (auto simp: reconcile_total_def Let_def split: if_splits)
  qed
qed

lemma updateArrayIndices_hoare:
  assumes tot: "\<And>g n. P g \<Longrightarrow> P (g\<lparr>totParticles := n\<rparr>)"
    and cmd: "\<And>c f a. hoare P (doCommand W c f a) P E"
    and rc: "hoare P (rollCallParticles (topology cfg)) P E"
    and pr: "\<And>m g. P g \<Longrightarrow> P (printf m g)"
    and parts: "\<And>g f. P g \<Longrightarrow> P (g\<lparr>s_hPartsPerDevice := f\<rparr>)"
    and pp: "\<And>g f. P g \<Longrightarrow> P (g\<lparr>processParticles := f\<rparr>)"
    and start: "\<And>g f. P g \<Longrightarrow> P (g\<lparr>s_hStartPerDevice := f\<rparr>)"
    and quit: "\<And>g. P g \<Longrightarrow> P (g\<lparr>quit_request := True\<rparr>)"
  shows "hoare P (updateArrayIndices cfg W) P E"
proof -
  have cap: "hoare P (host (check_capacity n)) P E" for n
    by (rule hoare_host) (auto simp: check_capacity_def intro: quit pr)
  have body: "hoare P (seq (reconcile_total cfg W) (host (check_capacity n))) P E" for n
    by (intro hoare_seq [where R = P] cap reconcile_total_hoare tot cmd rc pr)
  show ?thesis
    unfolding updateArrayIndices_def Let_def
    by (rule hoare_compose_pre [where P' = P])
       (auto simp: count_devices_eq update_offsets_def intro: body parts pp start)
qed

lemma hoare_if_then_post:
  "hoare P p Q E \<Longrightarrow> (\<And>g. P g \<Longrightarrow> Q g) \<Longrightarrow> hoare P (if_then c p) Q E"
  unfolding hoare_def if_then_def by (metis Pair_inject option.distinct(1))

lemma doCommand_live: "hoare live (doCommand W c f a) live (\<lambda>e. posts_live)"
  by (rule hoareI)
     (auto simp: doCommand_def Let_def post_def barrier_def run_workers_def live_def
        posts_live_def split: if_splits)

lemma set_only_internal_live: "hoare live (set_only_internal b) live E"
  unfolding set_only_internal_def
  by (rule hoare_host) (simp add: live_def posts_live_def)

lemma throw_live: "hoare live (throw e) live (\<lambda>e. posts_live)"
  by (rule hoare_throw) (simp add: live_def)

lemma rollCallParticles_live: "hoare live (rollCallParticles tp) live (\<lambda>e. posts_live)"
proof (rule hoareI)
  fix g g' assume "live g" "rollCallParticles tp g = (None, g')"
  with rollCallParticles_frame [of tp g None g'] show "live g'"
    by (simp add: rc_frame_def live_def posts_live_def)
next
  fix g g' e assume "live g" "rollCallParticles tp g = (Some e, g')"
  with rollCallParticles_frame [of tp g "Some e" g'] show "posts_live g'"
    by (simp add: rc_frame_def live_def posts_live_def)
qed

lemma updateArrayIndices_live: "hoare live (updateArrayIndices cfg W) live (\<lambda>e. posts_live)"
  by (rule updateArrayIndices_hoare)
     (simp_all add: doCommand_live rollCallParticles_live, simp_all add: live_def posts_live_def printf_def)

lemma update_particlesCreated_live: "hoare live (host (update_particlesCreated cfg)) live E"
  by (rule hoare_host) (simp add: live_def posts_live_def update_particlesCreated_def Let_def)

lemma loop_commands_live: "hoare live (loop_commands cfg W) live (\<lambda>e. posts_live)"
  by (intro loop_commands_hoare doCommand_live set_only_internal_live throw_live
      updateArrayIndices_live update_particlesCreated_live)

lemma advance_time_live: "live g \<Longrightarrow> live (advance_time cfg g)"
  by (simp add: advance_time_def adapt_dt_def Let_def live_def posts_live_def)

lemma check_dt_live: "hoare live (check_dt pt) live (\<lambda>e. posts_live)"
  by (rule hoareI)
     (auto simp: check_dt_def Let_def live_def posts_live_def printf_def split: if_splits)

lemma printStatus_live: "hoare live printStatus live E"
  unfolding printStatus_def
  by (rule hoare_host) (simp add: live_def posts_live_def printf_def)

lemma write_and_finish_live: "hoare live (write_and_finish cfg W) posts_live (\<lambda>e. posts_live)"
proof -
  have stop: "hoare live (if_then c (host (\<lambda>g'. g'\<lparr>keep_going := False\<rparr>))) posts_live (\<lambda>e. posts_live)"
    for c :: "'a GlobalData \<Rightarrow> bool"
    by (rule hoare_if_then_post, rule hoare_host) (simp_all add: live_def posts_live_def)
  have save: "hoare live
      (if_then c1 (if_then c2 (seq (saveParticles cfg W engines fl) (if_then c3 printStatus))))
      live (\<lambda>e. posts_live)"
    for c1 c2 c3 :: "'a GlobalData \<Rightarrow> bool" and engines fl
    by (intro hoare_if_then hoare_seq [where R = live] saveParticles_hoare
        doCommand_live set_only_internal_live printStatus_live)
  have both: "hoare live
      (seq (if_then c1 (if_then c2 (seq (saveParticles cfg W engines fl) (if_then c3 printStatus))))
           (if_then c4 (host (\<lambda>g'. g'\<lparr>keep_going := False\<rparr>))))
      posts_live (\<lambda>e. posts_live)"
    for c1 c2 c3 c4 :: "'a GlobalData \<Rightarrow> bool" and engines fl
    by (rule hoare_seq [where R = live, OF save stop])
  show ?thesis
    unfolding write_and_finish_def Let_def
    apply (rule hoare_compose_pre [where P' = live])
     apply (simp add: live_def posts_live_def)
    apply (rule both)
    done
qed

lemma finish_iteration_live: "hoare live (finish_iteration cfg W) posts_live (\<lambda>e. posts_live)"
  unfolding finish_iteration_def
  apply (rule hoare_compose_pre [where P' = live])
   apply (erule advance_time_live)
  apply (rule hoare_seq [where R = live, OF check_dt_live write_and_finish_live])
  done

lemma loop_body_live: "hoare live (loop_body cfg W) posts_live (\<lambda>e. posts_live)"
  unfolding loop_body_def
  by (intro hoare_seq [where R = live] loop_commands_live finish_iteration_live)

lemma catch_exception_fields:
  "keep_going (catch_exception e g) = False"
  "forced_unlock (threadSynchronizer (catch_exception e g)) = True"
  "console (catch_exception e g) = console g @ [Line (what e)]"
  "events (catch_exception e g) = events g @ [ForceUnlock]"
  "quit_request (catch_exception e g) = quit_request g"
  by (simp_all add: catch_exception_def forceUnlock_def printf_def sync_forceUnlock_def)

lemma iteration_live:
  assumes "live g"
  shows "posts_live (snd (iteration cfg W g))"
proof (cases "loop_body cfg W g")
  case (Pair r g')
  show ?thesis
  proof (cases r)
    case None
    with Pair hoareD_normal [OF loop_body_live assms] show ?thesis
      by (simp add: iteration_def try_catch_def)
  next
    case (Some e)
    with Pair hoareD_abort [OF loop_body_live assms] have "posts_live g'" by blast
    with Pair Some show ?thesis
      by (simp add: iteration_def try_catch_def posts_live_def catch_exception_fields)
  qed
qed

lemma simulation_loop_stopped: "\<not> keep_going g \<Longrightarrow> simulation_loop cfg W g = Some (None, g)"
  by (subst simulation_loop.simps) simp

lemma simulation_loop_live:
  assumes run: "simulation_loop cfg W g = Some r" and pl: "posts_live g"
  shows "posts_live (snd r)"
proof -
  have "posts_live g \<longrightarrow> posts_live (snd r)"
  proof (rule simulation_loop.raw_induct
      [where P = "\<lambda>cfg W g r. posts_live g \<longrightarrow> posts_live (snd r)", OF _ run])
    fix loop :: "config \<Rightarrow> 'a workers \<Rightarrow> 'a GlobalData \<Rightarrow> (abort option \<times> 'a GlobalData) option"
    fix cfg W g r
    assume IH: "\<And>cfg W g r. loop cfg W g = Some r \<Longrightarrow> posts_live g \<longrightarrow> posts_live (snd r)"
      and eq: "(if keep_going g
                then case iteration cfg W g of (None, g') \<Rightarrow> loop cfg W g'
                     | (Some e, g') \<Rightarrow> Some (Some e, g')
                else Some (None, g)) = Some r"
    show "posts_live g \<longrightarrow> posts_live (snd r)"
    proof
      assume p: "posts_live g"
      show "posts_live (snd r)"
      proof (cases "keep_going g")
        case False
        with eq p show ?thesis by auto
      next
        case True
        with p have lv: "live g" by (simp add: live_def)
        from iteration_live [OF lv] have pl: "posts_live (snd (iteration cfg W g))" .
        show ?thesis
        proof (cases "iteration cfg W g")
          case (Pair x g')
          with pl have p': "posts_live g'" by simp
          show ?thesis
          proof (cases x)
            case None
            with Pair True eq have "loop cfg W g' = Some r" by simp
            from IH [OF this] p' show ?thesis by blast
          next
            case (Some e)
            with Pair True eq have "r = (Some e, g')" by simp
            with p' show ?thesis by simp
          qed
        qed
      qed
    qed
  qed
  with pl show ?thesis by blast
qed

lemma seq_abort: "p g = (Some e, g') \<Longrightarrow> seq p q g = (Some e, g')"
  by (simp add: seq_def)

lemma seq_normal: "p g = (None, g1) \<Longrightarrow> seq p q g = q g1"
  by (simp add: seq_def)

lemma block_Cons_abort: "p g = (Some e, g') \<Longrightarrow> block (p # ps) g = (Some e, g')"
  by (simp add: seq_def)

lemma block_Cons_normal: "p g = (None, g1) \<Longrightarrow> block (p # ps) g = block ps g1"
  by (simp add: seq_def)

lemma if_then_true: "c g \<Longrightarrow> if_then c p g = p g"
  by (simp add: if_then_def)

lemma if_then_false: "\<not> c g \<Longrightarrow> if_then c p g = (None, g)"
  by (simp add: if_then_def)

lemma example_first_command:
  "doCommand0 failing_workers SWAP_BUFFERS {''BUFFER_POS''} (example_gdata\<lparr>only_internal := False\<rparr>)
   = (Some worker_abort, aborted_gdata)"
  by (simp add: doCommand0_def doCommand_def Let_def aborted_gdata_def worker_abort_def
      barrier_def run_workers_def failing_workers_def)

lemma example_buildNeibList:
  "buildNeibList example_config failing_workers example_gdata = (Some worker_abort, aborted_gdata)"
  unfolding buildNeibList_def
  apply (subst block_Cons_normal [where ?g1.0 = "example_gdata\<lparr>only_internal := False\<rparr>"])
   apply (simp add: set_only_internal_def host_def)
  apply (rule block_Cons_abort)
  apply (rule example_first_command)
  done

lemma example_loop_body:
  "loop_body example_config failing_workers example_gdata = (Some worker_abort, aborted_gdata)"
  unfolding loop_body_def loop_commands_def Let_def
  apply (rule seq_abort)
  apply (rule block_Cons_abort)
  apply (subst if_then_true)
   apply (simp add: example_gdata_def)
  apply (rule example_buildNeibList)
  done

lemma example_live: "live example_gdata"
  by (simp add: live_def posts_live_def example_gdata_def)

subsection \<open>Commands and failures\<close>

text \<open>
  C2. Every call \<^verbatim>\<open>doCommand(cmd, flags, arg)\<close> first writes the command kind, the flag
  set and the scalar argument into the shared state, then makes exactly two barrier
  calls (the list of the orchestrator's calls grows by the post and two barriers, in
  this order); after the second barrier it tests \<^verbatim>\<open>keep_going\<close>, which the workers may
  have cleared between the barriers: it returns normally exactly when the flag is true,
  and throws \<^verbatim>\<open>runtime_error("GPUSPH aborted by worker thread")\<close> exactly when it is
  false.
\<close>

theorem doCommand_protocol:
  "events (snd (doCommand W cmd flags arg g))
     = events g @ [Post cmd flags arg (keep_going g), Barrier, Barrier]
   \<and> nextCommand (snd (doCommand W cmd flags arg g)) = cmd
   \<and> commandFlags (snd (doCommand W cmd flags arg g)) = flags
   \<and> extraCommandArg (snd (doCommand W cmd flags arg g)) = arg
   \<and> barrier_calls (threadSynchronizer (snd (doCommand W cmd flags arg g)))
       = barrier_calls (threadSynchronizer g) + 2
   \<and> keep_going (snd (doCommand W cmd flags arg g))
       = w_keep_going (W (barrier (post cmd flags arg g)))
   \<and> (fst (doCommand W cmd flags arg g) = None) = keep_going (snd (doCommand W cmd flags arg g))
   \<and> (fst (doCommand W cmd flags arg g) = Some (RuntimeError ''GPUSPH aborted by worker thread''))
       = (\<not> keep_going (snd (doCommand W cmd flags arg g)))"
  by (simp add: doCommand_def Let_def post_def barrier_def run_workers_def sync_barrier_def)

theorem doCommand_protocol_witness:
  "fst (doCommand failing_workers DUMP {''BUFFER_INFO''} 0 example_gdata)
     = Some (RuntimeError ''GPUSPH aborted by worker thread'')
   \<and> fst (doCommand healthy_workers DUMP {''BUFFER_INFO''} 0 example_gdata) = None
   \<and> events (snd (doCommand healthy_workers DUMP {''BUFFER_INFO''} 0 example_gdata))
       = [Post DUMP {''BUFFER_INFO''} 0 True, Barrier, Barrier]"
proof -
  have "\<not> w_keep_going (failing_workers (barrier (post DUMP {''BUFFER_INFO''} 0 example_gdata)))"
    by (simp add: failing_workers_def)
  moreover have "w_keep_going (healthy_workers (barrier (post DUMP {''BUFFER_INFO''} 0 example_gdata)))"
    by (simp add: healthy_workers_def barrier_def post_def example_gdata_def)
  moreover have "events example_gdata = []" "keep_going example_gdata"
    by (simp_all add: example_gdata_def)
  ultimately show ?thesis
    using doCommand_protocol [of failing_workers DUMP "{''BUFFER_INFO''}" 0 example_gdata]
      doCommand_protocol [of healthy_workers DUMP "{''BUFFER_INFO''}" 0 example_gdata]
    by simp
qed

text \<open>
  C3. If the loop body raises an exception while it issues commands, the loop catches
  it: the iteration ends normally in the state of the handler, in which \<^verbatim>\<open>keep_going\<close>
  is false, the synchronizer is force-unlocked and the message of the exception is the
  last line printed; from that state the loop exits without another iteration (and so
  without another command). Every command that an iteration posts is posted while
  \<^verbatim>\<open>keep_going\<close> is true: an iteration entered with \<^verbatim>\<open>keep_going\<close> true, as the loop
  enters it, keeps the property that no command was posted after the flag became false,
  through all its nested conditional sequences; and so does every run of the loop that
  returns.
\<close>

theorem simulation_loop_failure_semantics:
  "(loop_body cfg W g = (Some e, g') \<and> is_exception e
      \<longrightarrow> iteration cfg W g = (None, catch_exception e g')
        \<and> \<not> keep_going (catch_exception e g')
        \<and> forced_unlock (threadSynchronizer (catch_exception e g'))
        \<and> console (catch_exception e g') = console g' @ [Line (what e)]
        \<and> events (catch_exception e g') = events g' @ [ForceUnlock]
        \<and> simulation_loop cfg W (catch_exception e g') = Some (None, catch_exception e g'))
   \<and> (keep_going g \<and> posts_live g \<longrightarrow> posts_live (snd (iteration cfg W g)))
   \<and> (posts_live g \<and> simulation_loop cfg W g = Some r \<longrightarrow> posts_live (snd r))"
proof (intro conjI impI)
  assume a: "loop_body cfg W g = (Some e, g') \<and> is_exception e"
  then show "iteration cfg W g = (None, catch_exception e g')"
    by (simp add: iteration_def try_catch_def)
  show "\<not> keep_going (catch_exception e g')"
    "forced_unlock (threadSynchronizer (catch_exception e g'))"
    "console (catch_exception e g') = console g' @ [Line (what e)]"
    "events (catch_exception e g') = events g' @ [ForceUnlock]"
    by (simp_all add: catch_exception_fields)
  show "simulation_loop cfg W (catch_exception e g') = Some (None, catch_exception e g')"
    by (rule simulation_loop_stopped) (simp add: catch_exception_fields)
next
  assume "keep_going g \<and> posts_live g"
  then have "live g" by (simp add: live_def)
  then show "posts_live (snd (iteration cfg W g))" by (rule iteration_live)
next
  assume "posts_live g \<and> simulation_loop cfg W g = Some r"
  then show "posts_live (snd r)" using simulation_loop_live by blast
qed

theorem simulation_loop_failure_semantics_witness:
  "loop_body example_config failing_workers example_gdata = (Some worker_abort, aborted_gdata)
   \<and> is_exception worker_abort
   \<and> keep_going example_gdata \<and> posts_live example_gdata
   \<and> iteration example_config failing_workers example_gdata
       = (None, catch_exception worker_abort aborted_gdata)
   \<and> \<not> keep_going (catch_exception worker_abort aborted_gdata)
   \<and> forced_unlock (threadSynchronizer (catch_exception worker_abort aborted_gdata))
   \<and> simulation_loop example_config failing_workers example_gdata
       = Some (None, catch_exception worker_abort aborted_gdata)
   \<and> posts_live (catch_exception worker_abort aborted_gdata)"
proof -
  note inst = simulation_loop_failure_semantics
    [of example_config failing_workers example_gdata worker_abort aborted_gdata
        "(None, catch_exception worker_abort aborted_gdata)"]
  have ex: "is_exception worker_abort" by (simp add: worker_abort_def)
  have lv: "keep_going example_gdata" "posts_live example_gdata"
    using example_live by (simp_all add: live_def)
  from inst example_loop_body ex
  have it: "iteration example_config failing_workers example_gdata
              = (None, catch_exception worker_abort aborted_gdata)"
    and kg: "\<not> keep_going (catch_exception worker_abort aborted_gdata)"
    and fu: "forced_unlock (threadSynchronizer (catch_exception worker_abort aborted_gdata))"
    and stop: "simulation_loop example_config failing_workers (catch_exception worker_abort aborted_gdata)
                = Some (None, catch_exception worker_abort aborted_gdata)"
    by blast+
  have run: "simulation_loop example_config failing_workers example_gdata
              = Some (None, catch_exception worker_abort aborted_gdata)"
    by (subst simulation_loop.simps) (simp add: lv it stop)
  from inst lv run have "posts_live (catch_exception worker_abort aborted_gdata)" by simp
  with example_loop_body ex lv it kg fu run show ?thesis by simp
qed

subsection \<open>The guards on the time step\<close>

lemma hoare_compose_pre2:
  assumes "\<And>g. P g \<Longrightarrow> P' (f g) \<and> hoare P' (p g) Q E"
  shows "hoare P (\<lambda>g. p g (f g)) Q E"
  using assms unfolding hoare_def by blast

lemma hoare_if_then_always:
  "(\<And>g. c g) \<Longrightarrow> hoare P p Q E \<Longrightarrow> hoare P (if_then c p) Q E"
  unfolding hoare_def if_then_def by simp

lemma doCommand_quitting:
  "hoare (quitting ms) (doCommand W c f a) (quitting ms) (\<lambda>e g. is_exception e \<and> quitting ms g)"
  by (rule hoareI)
     (auto simp: doCommand_def Let_def post_def barrier_def run_workers_def quitting_def
        split: if_splits)

lemma set_only_internal_quitting: "hoare (quitting ms) (set_only_internal b) (quitting ms) E"
  unfolding set_only_internal_def
  by (rule hoare_host) (simp add: quitting_def)

lemma printStatus_quitting: "hoare (quitting ms) printStatus (quitting ms) E"
  unfolding printStatus_def
  by (rule hoare_host) (auto simp: quitting_def printf_def)

lemma write_and_finish_quitting:
  "hoare (quitting ms) (write_and_finish cfg W)
     (\<lambda>g. \<not> keep_going g \<and> quitting ms g) (\<lambda>e g. is_exception e \<and> quitting ms g)"
proof -
  let ?E = "\<lambda>e g. is_exception e \<and> quitting ms g"
  have stop: "hoare (quitting ms) (if_then c (host (\<lambda>g'. g'\<lparr>keep_going := False\<rparr>)))
       (\<lambda>g. \<not> keep_going g \<and> quitting ms g) ?E"
    if "\<And>g. c g" for c :: "'a GlobalData \<Rightarrow> bool"
    by (rule hoare_if_then_always [OF that], rule hoare_host) (simp add: quitting_def)
  have save: "hoare (quitting ms)
      (if_then c1 (if_then c2 (seq (saveParticles cfg W engines fl) (if_then c3 printStatus))))
      (quitting ms) ?E"
    for c1 c2 c3 :: "'a GlobalData \<Rightarrow> bool" and engines fl
    by (intro hoare_if_then hoare_seq [where R = "quitting ms"] saveParticles_hoare
        doCommand_quitting set_only_internal_quitting printStatus_quitting)
  show ?thesis
    unfolding write_and_finish_def Let_def
  proof (rule hoare_compose_pre2 [where P' = "quitting ms"], intro conjI)
    fix g :: "'a GlobalData" assume q: "quitting ms g"
    then show "quitting ms (if problem_need_write (externals cfg) (t g) \<or> we_are_done cfg g \<or> save_request g
                            then g\<lparr>save_request := False\<rparr> else g)"
      by (simp add: quitting_def)
    from q have "we_are_done cfg g" by (simp add: quitting_def we_are_done_def)
    then show "hoare (quitting ms)
        (seq (if_then (\<lambda>g'. Writer_NeedWrite (externals cfg) (t g) \<noteq> []
                          \<or> problem_need_write (externals cfg) (t g) \<or> we_are_done cfg g \<or> save_request g)
               (if_then (\<lambda>g'. \<not> (nosave (clOptions cfg)
                            \<and> \<not> (problem_need_write (externals cfg) (t g) \<or> we_are_done cfg g \<or> save_request g)))
                 (seq (saveParticles cfg W (enabledPostProcess (simframework cfg))
                         (if problem_need_write (externals cfg) (t g) \<or> we_are_done cfg g \<or> save_request g
                          then {''ALL_INTEGRATION_STEPS''} else NO_FLAGS))
                      (if_then (\<lambda>g'. (problem_need_write (externals cfg) (t g) \<or> we_are_done cfg g \<or> save_request g)
                                    \<or> 0 < foldl max 0 (Writer_NeedWrite (externals cfg) (t g))) printStatus))))
             (if_then (\<lambda>g'. we_are_done cfg g) (host (\<lambda>g'. g'\<lparr>keep_going := False\<rparr>))))
        (\<lambda>g. \<not> keep_going g \<and> quitting ms g) ?E"
      by (intro hoare_seq [where R = "quitting ms"] save stop) simp
  qed
qed

lemma try_catch_normal: "p g = (None, g') \<Longrightarrow> try_catch p g = (None, g')"
  by (simp add: try_catch_def)

lemma try_catch_exception:
  "p g = (Some e, g') \<Longrightarrow> is_exception e \<Longrightarrow> try_catch p g = (None, catch_exception e g')"
  by (simp add: try_catch_def)

lemma iteration_after_commands:
  "loop_commands cfg W g0 = (None, g) \<Longrightarrow> iteration cfg W g0 = try_catch (finish_iteration cfg W) g"
  by (simp add: iteration_def loop_body_def try_catch_def seq_def)

lemma check_dt_cases:
  "check_dt pt g = (if t g = 0 then (Some DtZeroException, g)
     else (None, (if t g = pt then printf time_still_line else id)
                   ((if dt g < FLT_EPSILON then printf dt_epsilon_line else id) g)
            \<lparr>quit_request := (t g = pt \<or> dt g < FLT_EPSILON \<or> quit_request g)\<rparr>))"
  by (auto simp: check_dt_def Let_def printf_def time_still_line_def dt_epsilon_line_def)

lemma timestep_guard_effect:
  assumes guard: "t g1 = pt \<or> dt g1 < FLT_EPSILON"
  shows "fst (try_catch (seq (check_dt pt) (write_and_finish cfg W)) g1) = None
       \<and> \<not> keep_going (snd (try_catch (seq (check_dt pt) (write_and_finish cfg W)) g1))
       \<and> (t g1 = 0 \<longrightarrow> Line (what DtZeroException)
              \<in> set (console (snd (try_catch (seq (check_dt pt) (write_and_finish cfg W)) g1))))
       \<and> (t g1 \<noteq> 0 \<and> dt g1 < FLT_EPSILON \<longrightarrow> dt_epsilon_line
              \<in> set (console (snd (try_catch (seq (check_dt pt) (write_and_finish cfg W)) g1))))
       \<and> (t g1 \<noteq> 0 \<and> t g1 = pt \<longrightarrow> time_still_line
              \<in> set (console (snd (try_catch (seq (check_dt pt) (write_and_finish cfg W)) g1))))"
proof (cases "t g1 = 0")
  case True
  then have "seq (check_dt pt) (write_and_finish cfg W) g1 = (Some DtZeroException, g1)"
    by (simp add: seq_def check_dt_def)
  then have "try_catch (seq (check_dt pt) (write_and_finish cfg W)) g1
             = (None, catch_exception DtZeroException g1)"
    by (rule try_catch_exception) simp
  with True show ?thesis by (simp add: catch_exception_fields)
next
  case False
  define g2 where "g2 = (if t g1 = pt then printf time_still_line else id)
                   ((if dt g1 < FLT_EPSILON then printf dt_epsilon_line else id) g1)
            \<lparr>quit_request := (t g1 = pt \<or> dt g1 < FLT_EPSILON \<or> quit_request g1)\<rparr>"
  have c: "check_dt pt g1 = (None, g2)" using False by (simp add: check_dt_cases g2_def)
  have q: "quitting (console g2) g2" using guard by (auto simp: quitting_def g2_def)
  have m1: "dt g1 < FLT_EPSILON \<Longrightarrow> dt_epsilon_line \<in> set (console g2)"
    and m2: "t g1 = pt \<Longrightarrow> time_still_line \<in> set (console g2)"
    by (auto simp: g2_def printf_def)
  obtain x g3 where w: "write_and_finish cfg W g2 = (x, g3)" by (cases "write_and_finish cfg W g2")
  have s: "seq (check_dt pt) (write_and_finish cfg W) g1 = (x, g3)"
    using c w by (simp add: seq_def)
  show ?thesis
  proof (cases x)
    case None
    with hoareD_normal [OF write_and_finish_quitting q] w
    have "\<not> keep_going g3" "quitting (console g2) g3" by blast+
    moreover from None s have "try_catch (seq (check_dt pt) (write_and_finish cfg W)) g1 = (None, g3)"
      by (simp add: try_catch_def)
    ultimately show ?thesis using False m1 m2 by (auto simp: quitting_def)
  next
    case (Some e)
    with hoareD_abort [OF write_and_finish_quitting q] w
    have "is_exception e" "quitting (console g2) g3" by blast+
    moreover from this(1) Some s
    have "try_catch (seq (check_dt pt) (write_and_finish cfg W)) g1 = (None, catch_exception e g3)"
      by (simp add: try_catch_def)
    ultimately show ?thesis using False m1 m2 by (auto simp: quitting_def catch_exception_fields)
  qed
qed

text \<open>
  C4. At the end of an iteration (the part of the loop body from \<^verbatim>\<open>gdata->iterations++\<close>
  on, under the handler of the loop), once the time has been advanced by the time step
  and the time step recomputed: if the new time equals the previous time, or the time
  step is below \<^verbatim>\<open>FLT_EPSILON\<close>, then the iteration ends with \<^verbatim>\<open>keep_going\<close> false, so
  the loop exits without starting another iteration, and the condition is on the
  console: the line of the epsilon test, the line of the time-is-still test, or, when
  the new time is 0, the message of the \<^verbatim>\<open>DtZeroException\<close> that the code throws there.
\<close>

theorem timestep_guards_stop_loop:
  assumes "t (advance_time cfg g) = t g \<or> dt (advance_time cfg g) < FLT_EPSILON"
  shows "fst (try_catch (finish_iteration cfg W) g) = None
       \<and> \<not> keep_going (snd (try_catch (finish_iteration cfg W) g))
       \<and> simulation_loop cfg W (snd (try_catch (finish_iteration cfg W) g))
           = Some (None, snd (try_catch (finish_iteration cfg W) g))
       \<and> (t (advance_time cfg g) = 0
            \<longrightarrow> Line (what DtZeroException) \<in> set (console (snd (try_catch (finish_iteration cfg W) g))))
       \<and> (t (advance_time cfg g) \<noteq> 0 \<and> dt (advance_time cfg g) < FLT_EPSILON
            \<longrightarrow> dt_epsilon_line \<in> set (console (snd (try_catch (finish_iteration cfg W) g))))
       \<and> (t (advance_time cfg g) \<noteq> 0 \<and> t (advance_time cfg g) = t g
            \<longrightarrow> time_still_line \<in> set (console (snd (try_catch (finish_iteration cfg W) g))))"
proof -
  have eq: "try_catch (finish_iteration cfg W) g
            = try_catch (seq (check_dt (t g)) (write_and_finish cfg W)) (advance_time cfg g)"
    by (simp add: try_catch_def finish_iteration_def)
  from timestep_guard_effect [OF assms, of cfg W]
  show ?thesis unfolding eq by (simp add: simulation_loop_stopped)
qed

theorem timestep_guards_stop_loop_witness:
  "(t (advance_time example_config stalled_gdata) = t stalled_gdata
      \<or> dt (advance_time example_config stalled_gdata) < FLT_EPSILON)
   \<and> dt (advance_time example_config stalled_gdata) < FLT_EPSILON
   \<and> t (advance_time example_config stalled_gdata) = 1
   \<and> \<not> keep_going (snd (try_catch (finish_iteration example_config healthy_workers) stalled_gdata))
   \<and> dt_epsilon_line
       \<in> set (console (snd (try_catch (finish_iteration example_config healthy_workers) stalled_gdata)))
   \<and> time_still_line
       \<in> set (console (snd (try_catch (finish_iteration example_config healthy_workers) stalled_gdata)))"
proof -
  have a: "t (advance_time example_config stalled_gdata) = 1"
    "dt (advance_time example_config stalled_gdata) = 0" "t stalled_gdata = 1"
    by (simp_all add: advance_time_def adapt_dt_def example_config_def stalled_gdata_def
        has_flag_def)
  have b: "(0::real) < FLT_EPSILON" by (simp add: FLT_EPSILON_def)
  from a b show ?thesis
    using timestep_guards_stop_loop [of example_config stalled_gdata healthy_workers]
    by simp
qed

section \<open>Counts and offsets after a redistribution\<close>

subsection \<open>What the reconciliation of the total leaves unchanged\<close>

lemma rc_reset_abort: "rc_reset i r = (Some e, r') \<Longrightarrow> e = OutOfBoundsAccess"
  by (auto simp: rc_reset_def Let_def split: if_splits)

lemma rc_fill_abort: "rc_fill i r = (Some e, r') \<Longrightarrow> e = OutOfBoundsAccess"
  by (auto simp: rc_fill_def Let_def split: if_splits)

lemma rc_missing_abort: "rc_missing i r = (Some e, r') \<Longrightarrow> e = OutOfBoundsAccess"
  by (auto simp: rc_missing_def Let_def split: if_splits)

lemma rollCallParticles_abort: "rollCallParticles tp g = (Some e, g') \<Longrightarrow> e = OutOfBoundsAccess"
  unfolding rollCallParticles_def Let_def
  by (auto split: prod.splits option.splits
      dest: for_loop_abort [where P = "\<lambda>e. e = OutOfBoundsAccess" and body = rc_reset, rotated, OF _ rc_reset_abort]
            for_loop_abort [where P = "\<lambda>e. e = OutOfBoundsAccess" and body = rc_fill, rotated, OF _ rc_fill_abort]
            for_loop_abort [where P = "\<lambda>e. e = OutOfBoundsAccess" and body = rc_missing, rotated, OF _ rc_missing_abort])

lemma counts_frame_refl: "counts_frame g g"
  by (simp add: counts_frame_def)

lemma doCommand_counts_frame:
  "hoare (counts_frame g0) (doCommand W c f a) (counts_frame g0)
     (\<lambda>e g. roll_call_abort e \<and> counts_frame g0 g)"
  by (rule hoareI)
     (auto simp: doCommand_def Let_def post_def barrier_def run_workers_def counts_frame_def
        roll_call_abort_def worker_abort_def split: if_splits)

lemma rollCallParticles_counts_frame:
  "hoare (counts_frame g0) (rollCallParticles tp) (counts_frame g0)
     (\<lambda>e g. roll_call_abort e \<and> counts_frame g0 g)"
proof (rule hoareI)
  fix g g' assume "counts_frame g0 g" "rollCallParticles tp g = (None, g')"
  with rollCallParticles_frame [of tp g None g'] show "counts_frame g0 g'"
    by (auto simp: rc_frame_def counts_frame_def)
next
  fix g g' e assume a: "counts_frame g0 g" "rollCallParticles tp g = (Some e, g')"
  with rollCallParticles_frame [of tp g "Some e" g'] have "counts_frame g0 g'"
    by (auto simp: rc_frame_def counts_frame_def)
  with rollCallParticles_abort [OF a(2)]
  show "roll_call_abort e \<and> counts_frame g0 g'" by (simp add: roll_call_abort_def)
qed

lemma reconcile_total_counts_frame:
  "hoare (counts_frame g0) (reconcile_total cfg W) (counts_frame g0)
     (\<lambda>e g. roll_call_abort e \<and> counts_frame g0 g)"
proof (rule reconcile_total_hoare)
  show "\<And>g n. counts_frame g0 g \<Longrightarrow> counts_frame g0 (g\<lparr>totParticles := n\<rparr>)"
    by (simp add: counts_frame_def)
  show "\<And>c f a. hoare (counts_frame g0) (doCommand W c f a) (counts_frame g0)
     (\<lambda>e g. roll_call_abort e \<and> counts_frame g0 g)"
    by (rule doCommand_counts_frame)
  show "hoare (counts_frame g0) (rollCallParticles (topology cfg)) (counts_frame g0)
     (\<lambda>e g. roll_call_abort e \<and> counts_frame g0 g)"
    by (rule rollCallParticles_counts_frame)
  show "\<And>m g. counts_frame g0 g \<Longrightarrow> counts_frame g0 (printf m g)"
    by (auto simp: counts_frame_def printf_def)
qed

lemma updateArrayIndices_eq:
  "updateArrayIndices cfg W g
     = seq (reconcile_total cfg W) (host (check_capacity (snd (count_devices (topology cfg) g))))
         (counted cfg g)"
  by (simp add: updateArrayIndices_def counted_def Let_def)

lemma updateArrayIndices_cases:
  obtains (normal) g5 where "reconcile_total cfg W (counted cfg g) = (None, g5)"
      "updateArrayIndices cfg W g
         = (None, check_capacity (snd (count_devices (topology cfg) g)) g5)"
      "counts_frame (counted cfg g) g5"
  | (abort) e g5 where "reconcile_total cfg W (counted cfg g) = (Some e, g5)"
      "updateArrayIndices cfg W g = (Some e, g5)" "counts_frame (counted cfg g) g5"
      "roll_call_abort e"
proof (cases "reconcile_total cfg W (counted cfg g)")
  case (Pair x g5)
  show ?thesis
  proof (cases x)
    case None
    with Pair hoareD_normal [OF reconcile_total_counts_frame counts_frame_refl]
    have "counts_frame (counted cfg g) g5" by blast
    with None Pair normal show ?thesis
      by (simp add: updateArrayIndices_eq seq_def host_def)
  next
    case (Some e)
    with Pair hoareD_abort [OF reconcile_total_counts_frame counts_frame_refl]
    have "roll_call_abort e \<and> counts_frame (counted cfg g) g5" by blast
    with Some Pair abort show ?thesis
      by (simp add: updateArrayIndices_eq seq_def)
  qed
qed

lemma check_capacity_counts:
  "s_hPartsPerDevice (check_capacity n g) = s_hPartsPerDevice g"
  "s_hStartPerDevice (check_capacity n g) = s_hStartPerDevice g"
  "processParticles (check_capacity n g) = processParticles g"
  by (simp_all add: check_capacity_def printf_def)

lemma updateArrayIndices_counts:
  "s_hPartsPerDevice (snd (updateArrayIndices cfg W g)) = s_hPartsPerDevice (counted cfg g)"
  "s_hStartPerDevice (snd (updateArrayIndices cfg W g)) = s_hStartPerDevice (counted cfg g)"
  "processParticles (snd (updateArrayIndices cfg W g)) = processParticles (counted cfg g)"
  by (cases rule: updateArrayIndices_cases [of cfg W g];
      simp add: check_capacity_counts counts_frame_def)+

subsection \<open>The ranges of the devices\<close>

lemma counted_fields:
  "s_hPartsPerDevice (counted cfg g)
     = (\<lambda>d. if d < devices (topology cfg) then numInternalParticles g d else s_hPartsPerDevice g d)"
  "s_hStartPerDevice (counted cfg g)
     = shift_devices (s_hPartsPerDevice (counted cfg g)) [1..<devices (topology cfg)]
         ((s_hStartPerDevice g)
            (0 := add_previous_nodes (processParticles (counted cfg g)) [0..<mpi_rank (topology cfg)] 0))"
  "allocatedParticles (counted cfg g) = allocatedParticles g"
  "iterations (counted cfg g) = iterations g"
  "totParticles (counted cfg g) = totParticles g"
  "quit_request (counted cfg g) = quit_request g"
  "console (counted cfg g) = console g"
  by (simp_all add: counted_def Let_def count_devices_eq update_offsets_def)

lemma counted_processParticles_local:
  "\<not> MULTI_NODE (topology cfg) \<Longrightarrow>
   processParticles (counted cfg g)
     = (processParticles g)(mpi_rank (topology cfg) := snd (count_devices (topology cfg) g))"
  by (simp add: counted_def Let_def count_devices_eq update_offsets_def)

lemma foldl_uadd:
  "foldl (\<lambda>acc n. uadd acc (f n)) a ns = (a + sum_list (map f ns)) mod 2 ^ 32"
  if "a < 2 ^ 32"
  using that
proof (induction ns arbitrary: a)
  case Nil
  then show ?case by simp
next
  case (Cons n ns)
  have "uadd a (f n) < 2 ^ 32" by (simp add: uadd_def)
  from Cons.IH [OF this] show ?case
    by (simp add: uadd_def mod_add_left_eq add.assoc)
qed

lemma sum_list_upt: "sum_list (map f [0..<n]) = (\<Sum>i<n. f i)"
  by (induction n) simp_all

lemma add_previous_nodes_eq: "add_previous_nodes pp [0..<r] 0 = (\<Sum>n<r. pp n) mod 2 ^ 32"
  by (simp add: add_previous_nodes_def foldl_uadd sum_list_upt)

lemma processCount_eq:
  "snd (count_devices tp g) = (\<Sum>d<devices tp. numInternalParticles g d) mod 2 ^ 32"
proof -
  have "foldl uadd 0 (map f [0..<n]) = foldl (\<lambda>acc d. uadd acc (f d)) 0 [0..<n]" for f n
    by (simp add: foldl_map)
  then show ?thesis by (simp add: count_devices_eq foldl_uadd sum_list_upt)
qed

lemma shift_devices_props:
  "shift_devices parts [1..<n] st0 0 = st0 0
   \<and> (\<forall>d. 0 < d \<and> d < n \<longrightarrow>
          shift_devices parts [1..<n] st0 d
            = uadd (shift_devices parts [1..<n] st0 (d - 1)) (parts (d - 1)))
   \<and> (\<forall>d. n \<le> d \<longrightarrow> shift_devices parts [1..<n] st0 d = st0 d)"
proof (induction n)
  case 0
  show ?case by (simp add: shift_devices_def)
next
  case (Suc n)
  let ?st = "shift_devices parts [1..<n] st0"
  show ?case
  proof (cases "n = 0")
    case True
    then show ?thesis by (simp add: shift_devices_def)
  next
    case False
    then have "[1..<Suc n] = [1..<n] @ [n]" by simp
    then have step: "shift_devices parts [1..<Suc n] st0
                     = ?st(n := uadd (?st (n - 1)) (parts (n - 1)))"
      by (simp add: shift_devices_def)
    from Suc False show ?thesis
      unfolding step by (auto simp: less_Suc_eq)
  qed
qed

lemma shift_devices_plain:
  assumes props: "st (0::nat) = a" "\<And>d::nat. 0 < d \<Longrightarrow> d < n \<Longrightarrow> st d = uadd (st (d - 1)) (parts (d - 1))"
    and bound: "a + (\<Sum>e<n. parts e) < 2 ^ 32"
  shows "d < n \<Longrightarrow> st d = a + (\<Sum>e<d. parts e :: nat)"
proof (induction d)
  case 0
  with props(1) show ?case by simp
next
  case (Suc d)
  then have "st d = a + (\<Sum>e<d. parts e)" by simp
  moreover have "st (Suc d) = uadd (st d) (parts d)" using props(2) [of "Suc d"] Suc.prems by simp
  moreover have "(\<Sum>e<Suc d. parts e) \<le> (\<Sum>e<n. parts e)"
    using Suc.prems by (intro sum_mono2) auto
  ultimately show ?case using bound by (simp add: uadd_def)
qed

lemma ranges_cover:
  "(\<Union>d<n. {a + (\<Sum>e<d. p e) ..< a + (\<Sum>e<d. p e) + p d}) = {a ..< a + (\<Sum>e<(n::nat). p e :: nat)}"
proof (induction n)
  case 0
  show ?case by simp
next
  case (Suc n)
  have "(\<Union>d<Suc n. {a + (\<Sum>e<d. p e) ..< a + (\<Sum>e<d. p e) + p d})
        = (\<Union>d<n. {a + (\<Sum>e<d. p e) ..< a + (\<Sum>e<d. p e) + p d})
          \<union> {a + (\<Sum>e<n. p e) ..< a + (\<Sum>e<n. p e) + p n}"
    by (simp add: lessThan_Suc Un_commute)
  also have "\<dots> = {a ..< a + (\<Sum>e<n. p e)} \<union> {a + (\<Sum>e<n. p e) ..< a + (\<Sum>e<n. p e) + p n}"
    by (simp only: Suc)
  also have "\<dots> = {a ..< a + (\<Sum>e<Suc n. p e)}"
    by (auto simp: add.assoc)
  finally show ?case .
qed

lemma counted_offsets:
  fixes cfg :: config and g :: "'a GlobalData"
  defines "n \<equiv> devices (topology cfg)"
  defines "P \<equiv> s_hPartsPerDevice (counted cfg g)"
  defines "S \<equiv> s_hStartPerDevice (counted cfg g)"
  defines "a \<equiv> (\<Sum>r<mpi_rank (topology cfg). processParticles (counted cfg g) r)"
  assumes bound: "a + (\<Sum>d<n. numInternalParticles g d) < 2 ^ 32"
  shows "\<And>d. d < n \<Longrightarrow> P d = numInternalParticles g d"
    and "S 0 = a"
    and "\<And>d. d < n \<Longrightarrow> S d = a + (\<Sum>e<d. numInternalParticles g e)"
proof -
  show P: "P d = numInternalParticles g d" if "d < n" for d
    using that by (simp add: P_def n_def counted_fields(1))
  have sums: "(\<Sum>e<d. P e) = (\<Sum>e<d. numInternalParticles g e)" if "d \<le> n" for d
    using that by (intro sum.cong) (auto simp: P)
  have a: "add_previous_nodes (processParticles (counted cfg g)) [0..<mpi_rank (topology cfg)] 0 = a"
    using bound by (simp add: add_previous_nodes_eq a_def)
  define st0 where "st0 = (s_hStartPerDevice g)(0 := a)"
  have S: "S = shift_devices P [1..<n] st0"
    unfolding S_def P_def n_def st0_def by (subst counted_fields(2)) (simp only: a)
  from shift_devices_props [of P n st0]
  have S0: "S 0 = a"
    and rec: "\<And>d. 0 < d \<Longrightarrow> d < n \<Longrightarrow> S d = uadd (S (d - 1)) (P (d - 1))"
    unfolding S by (simp_all add: st0_def)
  show "S 0 = a" by (rule S0)
  have b: "a + (\<Sum>e<n. P e) < 2 ^ 32" using bound sums [of n] by simp
  show "S d = a + (\<Sum>e<d. numInternalParticles g e)" if "d < n" for d
    using shift_devices_plain [of S a n P d, OF S0 rec b] that sums [of d] by simp
qed

text \<open>
  C7. \<open>updateArrayIndices\<close> sets the count of every device to the number its worker
  reports, whatever the count was before, and the start offsets to the prefix sums:
  device 0 starts at the sum of the totals of the previous nodes, device \<open>d\<close> at the
  start of device \<open>d - 1\<close> plus its count. So the ranges of the devices are ordered by
  device index, do not overlap, and their union is the interval that starts at the
  offset of device 0 and has as many elements as the workers report in total. This holds
  in the state the function leaves, whether it returns or is aborted by the roll call,
  as long as the sums fit the 32-bit counters.
\<close>

theorem updateArrayIndices_ranges:
  fixes cfg :: config and g :: "'a GlobalData" and W :: "'a workers"
  defines "g' \<equiv> snd (updateArrayIndices cfg W g)"
  defines "n \<equiv> devices (topology cfg)"
  assumes fits: "(\<Sum>r<mpi_rank (topology cfg). processParticles g' r)
                  + (\<Sum>d<n. numInternalParticles g d) < 2 ^ 32"
  shows "(\<forall>d<n. s_hPartsPerDevice g' d = numInternalParticles g d)
       \<and> s_hStartPerDevice g' 0 = (\<Sum>r<mpi_rank (topology cfg). processParticles g' r)
       \<and> (\<forall>d. 0 < d \<and> d < n \<longrightarrow>
             s_hStartPerDevice g' d = s_hStartPerDevice g' (d - 1) + s_hPartsPerDevice g' (d - 1))
       \<and> (\<forall>d e. d < e \<and> e < n \<longrightarrow>
             s_hStartPerDevice g' d + s_hPartsPerDevice g' d \<le> s_hStartPerDevice g' e)
       \<and> (\<Union>d<n. {s_hStartPerDevice g' d ..< s_hStartPerDevice g' d + s_hPartsPerDevice g' d})
           = {s_hStartPerDevice g' 0 ..<
                s_hStartPerDevice g' 0 + (\<Sum>d<n. numInternalParticles g d)}
       \<and> (\<not> MULTI_NODE (topology cfg) \<longrightarrow>
             processParticles g' (mpi_rank (topology cfg)) = (\<Sum>d<n. numInternalParticles g d))"
proof -
  let ?N = "numInternalParticles g"
  define a where "a = (\<Sum>r<mpi_rank (topology cfg). processParticles (counted cfg g) r)"
  have eqs: "s_hPartsPerDevice g' = s_hPartsPerDevice (counted cfg g)"
    "s_hStartPerDevice g' = s_hStartPerDevice (counted cfg g)"
    "processParticles g' = processParticles (counted cfg g)"
    unfolding g'_def by (rule updateArrayIndices_counts)+
  have bound: "a + (\<Sum>d<n. ?N d) < 2 ^ 32"
    using fits by (simp add: a_def eqs n_def)
  note off = counted_offsets [of cfg g, folded n_def a_def, OF bound]
  have P: "s_hPartsPerDevice g' d = ?N d" if "d < n" for d
    using off(1) [OF that] by (simp add: eqs)
  have S0: "s_hStartPerDevice g' 0 = a" using off(2) by (simp add: eqs)
  have S: "s_hStartPerDevice g' d = a + (\<Sum>e<d. ?N e)" if "d < n" for d
    using off(3) [OF that] by (simp add: eqs)
  have c1: "\<forall>d<n. s_hPartsPerDevice g' d = ?N d" using P by blast
  have c2: "s_hStartPerDevice g' 0 = (\<Sum>r<mpi_rank (topology cfg). processParticles g' r)"
    using S0 by (simp add: a_def eqs)
  have c3: "s_hStartPerDevice g' d = s_hStartPerDevice g' (d - 1) + s_hPartsPerDevice g' (d - 1)"
    if "0 < d" "d < n" for d
  proof -
    from that obtain k where k: "d = Suc k" by (cases d) auto
    with that have "k < n" by simp
    with that k show ?thesis by (simp add: S P)
  qed
  have c4: "s_hStartPerDevice g' d + s_hPartsPerDevice g' d \<le> s_hStartPerDevice g' e"
    if "d < e" "e < n" for d e
  proof -
    from that have d: "d < n" by simp
    have "(\<Sum>i<Suc d. ?N i) \<le> (\<Sum>i<e. ?N i)"
      using that by (intro sum_mono2) auto
    then show ?thesis using that d by (simp add: S P)
  qed
  have "(\<Union>d<n. {s_hStartPerDevice g' d ..< s_hStartPerDevice g' d + s_hPartsPerDevice g' d})
        = (\<Union>d<n. {a + (\<Sum>e<d. ?N e) ..< a + (\<Sum>e<d. ?N e) + ?N d})"
    by (intro SUP_cong) (simp_all add: S P)
  also have "\<dots> = {a ..< a + (\<Sum>d<n. ?N d)}" by (rule ranges_cover)
  finally have c5: "(\<Union>d<n. {s_hStartPerDevice g' d ..< s_hStartPerDevice g' d + s_hPartsPerDevice g' d})
           = {s_hStartPerDevice g' 0 ..< s_hStartPerDevice g' 0 + (\<Sum>d<n. ?N d)}"
    by (simp add: S0)
  have c6: "processParticles g' (mpi_rank (topology cfg)) = (\<Sum>d<n. ?N d)"
    if "\<not> MULTI_NODE (topology cfg)"
    using that bound by (simp add: eqs counted_processParticles_local processCount_eq n_def)
  from c1 c2 c3 c4 c5 c6 show ?thesis by blast
qed

theorem updateArrayIndices_ranges_witness:
  "(\<Sum>r<mpi_rank (topology example_config).
       processParticles (snd (updateArrayIndices example_config healthy_workers stale_counts_gdata)) r)
     + (\<Sum>d<devices (topology example_config). numInternalParticles stale_counts_gdata d) < 2 ^ 32
   \<and> s_hPartsPerDevice stale_counts_gdata 0 = 3
   \<and> s_hStartPerDevice stale_counts_gdata 1 = 5
   \<and> s_hPartsPerDevice (snd (updateArrayIndices example_config healthy_workers stale_counts_gdata)) 0 = 2
   \<and> s_hPartsPerDevice (snd (updateArrayIndices example_config healthy_workers stale_counts_gdata)) 1 = 2
   \<and> s_hStartPerDevice (snd (updateArrayIndices example_config healthy_workers stale_counts_gdata)) 0 = 0
   \<and> s_hStartPerDevice (snd (updateArrayIndices example_config healthy_workers stale_counts_gdata)) 1 = 2
   \<and> processParticles (snd (updateArrayIndices example_config healthy_workers stale_counts_gdata)) 0 = 4"
proof -
  let ?g = "snd (updateArrayIndices example_config healthy_workers stale_counts_gdata)"
  have ex: "mpi_rank (topology example_config) = 0" "devices (topology example_config) = 2"
    "\<not> MULTI_NODE (topology example_config)"
    "numInternalParticles stale_counts_gdata = (\<lambda>d. 2)"
    "s_hPartsPerDevice stale_counts_gdata = (\<lambda>d. 3)"
    "s_hStartPerDevice stale_counts_gdata = (\<lambda>d. 5)"
    by (simp_all add: example_config_def example_topology_def stale_counts_gdata_def
        example_gdata_def)
  have fits: "(\<Sum>r<mpi_rank (topology example_config). processParticles ?g r)
     + (\<Sum>d<devices (topology example_config). numInternalParticles stale_counts_gdata d) < 2 ^ 32"
    by (simp add: ex)
  from updateArrayIndices_ranges [of example_config healthy_workers stale_counts_gdata, OF fits]
  have p: "\<forall>d<2. s_hPartsPerDevice ?g d = 2"
    and s0: "s_hStartPerDevice ?g 0 = 0"
    and s: "\<forall>d. 0 < d \<and> d < 2 \<longrightarrow>
              s_hStartPerDevice ?g d = s_hStartPerDevice ?g (d - 1) + s_hPartsPerDevice ?g (d - 1)"
    and pp: "processParticles ?g 0 = 4"
    by (simp_all add: ex)
  from p have p0: "s_hPartsPerDevice ?g 0 = 2" and p1: "s_hPartsPerDevice ?g 1 = 2" by simp_all
  from s have "s_hStartPerDevice ?g 1 = s_hStartPerDevice ?g (1 - 1) + s_hPartsPerDevice ?g (1 - 1)"
    by simp
  with s0 p0 have s1: "s_hStartPerDevice ?g 1 = 2" by simp
  from fits p0 p1 s0 s1 pp show ?thesis by (simp add: ex)
qed

subsection \<open>The capacity test\<close>

lemma newSimulationTotal_cong:
  "processParticles g = processParticles g' \<Longrightarrow> newSimulationTotal tp g = newSimulationTotal tp g'"
  by (simp add: newSimulationTotal_def)

lemma reconcile_total_unchanged:
  "inlet_outlet cfg \<or> newSimulationTotal (topology cfg) g = totParticles g
   \<Longrightarrow> fst (reconcile_total cfg W g) = None"
  by (auto simp: reconcile_total_def Let_def)

lemma doCommand_failing:
  "doCommand failing_workers c f a g
     = (Some worker_abort, barrier (run_workers failing_workers (barrier (post c f a g))))"
  by (simp add: doCommand_def Let_def worker_abort_def barrier_def run_workers_def
      failing_workers_def)

lemma doCommand_fields:
  "quit_request (snd (doCommand W c f a g)) = quit_request g"
  "console (snd (doCommand W c f a g)) = console g"
  "totParticles (snd (doCommand W c f a g)) = totParticles g"
  by (simp_all add: doCommand_def Let_def barrier_def run_workers_def post_def)

lemma example_topology_fields:
  "mpi_rank (topology example_config) = 0" "devices (topology example_config) = 2"
  "mpi_nodes (topology example_config) = 1"
  "\<not> MULTI_NODE (topology example_config)" "SINGLE_NODE (topology example_config)"
  "\<not> inlet_outlet example_config" "\<not> no_leak_warning (clOptions example_config)"
  by (simp_all add: example_config_def example_topology_def inlet_outlet_def has_flag_def)

lemma overfull_counted:
  "snd (count_devices (topology example_config) overfull_gdata) = 8"
  "processParticles (counted example_config overfull_gdata) 0 = 8"
  "newSimulationTotal (topology example_config) (counted example_config overfull_gdata) = 8"
  "totParticles (counted example_config overfull_gdata) = 4"
  "allocatedParticles overfull_gdata = 6"
  "iterations (counted example_config overfull_gdata) = 0"
  "\<not> quit_request (counted example_config overfull_gdata)"
  "console (counted example_config overfull_gdata) = []"
proof -
  have n: "numInternalParticles overfull_gdata = (\<lambda>d. 4)"
    by (simp add: overfull_gdata_def)
  show c: "snd (count_devices (topology example_config) overfull_gdata) = 8"
    by (simp add: processCount_eq example_topology_fields n)
  show p: "processParticles (counted example_config overfull_gdata) 0 = 8"
    using c by (simp add: counted_processParticles_local example_topology_fields)
  show "newSimulationTotal (topology example_config) (counted example_config overfull_gdata) = 8"
    using p by (simp add: newSimulationTotal_def example_topology_fields uadd_def)
  show "totParticles (counted example_config overfull_gdata) = 4"
    "allocatedParticles overfull_gdata = 6"
    "iterations (counted example_config overfull_gdata) = 0"
    "\<not> quit_request (counted example_config overfull_gdata)"
    "console (counted example_config overfull_gdata) = []"
    by (simp_all add: counted_fields overfull_gdata_def example_gdata_def)
qed

lemma overfull_reconcile:
  "fst (reconcile_total example_config failing_workers (counted example_config overfull_gdata))
     = Some worker_abort"
  "\<not> quit_request (snd (reconcile_total example_config failing_workers
        (counted example_config overfull_gdata)))"
  "console (snd (reconcile_total example_config failing_workers
        (counted example_config overfull_gdata))) = [CountChanged 0 4 8]"
  by (simp_all add: reconcile_total_def Let_def overfull_counted example_topology_fields
      seq_def if_then_def host_def warn_count_changed_def doCommand0_def doCommand_failing
      barrier_def run_workers_def post_def printf_def)

text \<open>
  C8 as the claim states it fails when the roll call that precedes the test is left by
  an exception. Two workers report 4 particles each for a capacity of 6, the stored
  total is 4, there are no open boundaries and the node is alone: the warning of the
  changed count is printed, the \<^verbatim>\<open>DUMP\<close> command finds a failed worker and throws, and
  \<^verbatim>\<open>updateArrayIndices\<close> is left with the quit request not set and nothing about the
  capacity on the console.
\<close>

theorem capacity_test_skipped_by_exception:
  "allocatedParticles overfull_gdata < snd (count_devices (topology example_config) overfull_gdata)
   \<and> fst (updateArrayIndices example_config failing_workers overfull_gdata) = Some worker_abort
   \<and> \<not> quit_request (snd (updateArrayIndices example_config failing_workers overfull_gdata))
   \<and> console (snd (updateArrayIndices example_config failing_workers overfull_gdata))
       = [CountChanged 0 4 8]"
proof -
  have "updateArrayIndices example_config failing_workers overfull_gdata
        = reconcile_total example_config failing_workers (counted example_config overfull_gdata)"
    using overfull_reconcile(1)
    by (cases "reconcile_total example_config failing_workers (counted example_config overfull_gdata)")
       (simp add: updateArrayIndices_eq seq_def)
  then show ?thesis by (simp add: overfull_reconcile overfull_counted)
qed

text \<open>
  C8, amended. When the count of the process exceeds the allocated capacity and
  \<^verbatim>\<open>updateArrayIndices\<close> returns, the quit request is set, which makes the termination
  condition of the loop true, and the last line on the console is the message of the
  exceeded capacity. The function returns whenever open boundaries are enabled or the
  total recomputed from the counts of the nodes is the stored one; otherwise it can be
  left through the roll call, by the runtime error of \<^verbatim>\<open>doCommand\<close> or by an access
  outside the roll-call arrays, and then the quit request is as it was.
\<close>

theorem capacity_exceeded_requests_quit:
  fixes cfg :: config and g :: "'a GlobalData" and W :: "'a workers"
  defines "g' \<equiv> snd (updateArrayIndices cfg W g)"
  defines "processCount \<equiv> snd (count_devices (topology cfg) g)"
  assumes over: "allocatedParticles g < processCount"
  shows "(inlet_outlet cfg \<or> newSimulationTotal (topology cfg) g' = totParticles g
            \<longrightarrow> fst (updateArrayIndices cfg W g) = None)
       \<and> (fst (updateArrayIndices cfg W g) = None
            \<longrightarrow> quit_request g' \<and> we_are_done cfg g'
                \<and> console g' \<noteq> []
                \<and> last (console g')
                    = CapacityExceeded (iterations g) processCount (allocatedParticles g))
       \<and> (\<forall>e. fst (updateArrayIndices cfg W g) = Some e
            \<longrightarrow> roll_call_abort e \<and> quit_request g' = quit_request g)"
proof (cases rule: updateArrayIndices_cases [of cfg W g])
  case (normal g5)
  from normal(3) have f: "allocatedParticles g5 = allocatedParticles g" "iterations g5 = iterations g"
    by (simp_all add: counts_frame_def counted_fields)
  from normal(2) have g': "g' = check_capacity processCount g5"
    by (simp add: g'_def processCount_def)
  from over f have "quit_request g'" "console g' \<noteq> []"
    "last (console g') = CapacityExceeded (iterations g) processCount (allocatedParticles g)"
    by (simp_all add: g' check_capacity_def printf_def)
  with normal(2) show ?thesis by (simp add: we_are_done_def)
next
  case (abort e g5)
  from abort(2) have g': "g' = g5" by (simp add: g'_def)
  from abort(3) have q: "quit_request g' = quit_request g"
    by (simp add: g' counts_frame_def counted_fields)
  have "processParticles g' = processParticles (counted cfg g)"
    unfolding g'_def by (rule updateArrayIndices_counts)
  then have "newSimulationTotal (topology cfg) g' = newSimulationTotal (topology cfg) (counted cfg g)"
    by (rule newSimulationTotal_cong)
  moreover have "totParticles (counted cfg g) = totParticles g" by (rule counted_fields)
  ultimately have "\<not> (inlet_outlet cfg \<or> newSimulationTotal (topology cfg) g' = totParticles g)"
    using reconcile_total_unchanged [of cfg "counted cfg g" W] abort(1) by auto
  with abort(2,4) q show ?thesis by simp
qed

theorem capacity_exceeded_requests_quit_witness:
  "allocatedParticles overfull_reconciled_gdata
     < snd (count_devices (topology example_config) overfull_reconciled_gdata)
   \<and> newSimulationTotal (topology example_config)
        (snd (updateArrayIndices example_config healthy_workers overfull_reconciled_gdata))
       = totParticles overfull_reconciled_gdata
   \<and> fst (updateArrayIndices example_config healthy_workers overfull_reconciled_gdata) = None
   \<and> quit_request (snd (updateArrayIndices example_config healthy_workers overfull_reconciled_gdata))
   \<and> last (console (snd (updateArrayIndices example_config healthy_workers overfull_reconciled_gdata)))
       = CapacityExceeded 0 8 6"
proof -
  let ?g' = "snd (updateArrayIndices example_config healthy_workers overfull_reconciled_gdata)"
  have n: "numInternalParticles overfull_reconciled_gdata = (\<lambda>d. 4)"
    "allocatedParticles overfull_reconciled_gdata = 6" "totParticles overfull_reconciled_gdata = 8"
    "iterations overfull_reconciled_gdata = 0"
    by (simp_all add: overfull_reconciled_gdata_def example_gdata_def)
  have c: "snd (count_devices (topology example_config) overfull_reconciled_gdata) = 8"
    by (simp add: processCount_eq example_topology_fields n)
  have "processParticles ?g' 0 = 8"
    using c by (simp add: updateArrayIndices_counts counted_processParticles_local
        example_topology_fields)
  then have t: "newSimulationTotal (topology example_config) ?g' = 8"
    by (simp add: newSimulationTotal_def example_topology_fields uadd_def)
  have over: "allocatedParticles overfull_reconciled_gdata
     < snd (count_devices (topology example_config) overfull_reconciled_gdata)"
    by (simp add: c n)
  from capacity_exceeded_requests_quit [of overfull_reconciled_gdata example_config healthy_workers,
      OF over] t over
  show ?thesis by (simp add: n c)
qed

subsection \<open>A changed total without open boundaries\<close>

lemma counted_frame:
  "events (counted cfg g) = events g" "keep_going (counted cfg g) = keep_going g"
  by (simp_all add: counted_def Let_def count_devices_eq update_offsets_def)

lemma doCommand_effect:
  assumes "doCommand W c f a g = (x, g')"
  shows "events g' = events g @ [Post c f a (keep_going g), Barrier, Barrier]"
    and "console g' = console g" and "totParticles g' = totParticles g"
    and "x = None \<or> x = Some worker_abort"
  using assms
  by (auto simp: doCommand_def Let_def post_def barrier_def run_workers_def worker_abort_def
      split: if_splits)

lemma warn_count_changed_effect:
  assumes w: "warn_count_changed cfg W new g = (x, g')"
  shows "\<exists>ms. console g' = console g @ CountChanged (iterations g) (totParticles g) new # ms"
    and "totParticles g' = totParticles g"
    and "SINGLE_NODE (topology cfg) \<Longrightarrow> events g' = events g @ [dump_posted g, Barrier, Barrier]"
    and "\<not> SINGLE_NODE (topology cfg) \<Longrightarrow> x = None \<and> events g' = events g"
proof -
  define g1 where "g1 = printf (CountChanged (iterations g) (totParticles g) new) g"
  have g1: "console g1 = console g @ [CountChanged (iterations g) (totParticles g) new]"
    "totParticles g1 = totParticles g" "events g1 = events g" "keep_going g1 = keep_going g"
    by (simp_all add: g1_def printf_def)
  have all: "(\<exists>ms. console g' = console g @ CountChanged (iterations g) (totParticles g) new # ms)
     \<and> totParticles g' = totParticles g
     \<and> (SINGLE_NODE (topology cfg) \<longrightarrow> events g' = events g @ [dump_posted g, Barrier, Barrier])
     \<and> (\<not> SINGLE_NODE (topology cfg) \<longrightarrow> x = None \<and> events g' = events g)"
  proof (cases "SINGLE_NODE (topology cfg)")
    case False
    with w have "x = None" "g' = g1"
      by (simp_all add: warn_count_changed_def seq_def host_def if_then_def g1_def)
    with False g1 show ?thesis by simp
  next
    case True
    obtain x2 g2 where d: "doCommand W DUMP {''BUFFER_INFO'', ''DBLBUFFER_READ''} default_arg g1 = (x2, g2)"
      by (cases "doCommand W DUMP {''BUFFER_INFO'', ''DBLBUFFER_READ''} default_arg g1")
    note e = doCommand_effect [OF d]
    have g2: "console g2 = console g @ [CountChanged (iterations g) (totParticles g) new]"
      "totParticles g2 = totParticles g" "events g2 = events g @ [dump_posted g, Barrier, Barrier]"
      using e g1 by (simp_all add: dump_posted_def)
    show ?thesis
    proof (cases x2)
      case (Some e)
      with w d True have "g' = g2"
        by (simp add: warn_count_changed_def seq_def host_def if_then_def g1_def doCommand0_def)
      with g2 True show ?thesis by simp
    next
      case None
      with w d True have "rollCallParticles (topology cfg) g2 = (x, g')"
        by (simp add: warn_count_changed_def seq_def host_def if_then_def g1_def doCommand0_def)
      then have "rc_frame g2 g'" by (rule rollCallParticles_frame)
      with g2 True show ?thesis by (auto simp: rc_frame_def)
    qed
  qed
  from all show "\<exists>ms. console g' = console g @ CountChanged (iterations g) (totParticles g) new # ms"
    and "totParticles g' = totParticles g"
    and "SINGLE_NODE (topology cfg) \<Longrightarrow> events g' = events g @ [dump_posted g, Barrier, Barrier]"
    and "\<not> SINGLE_NODE (topology cfg) \<Longrightarrow> x = None \<and> events g' = events g"
    by blast+
qed

lemma reconcile_total_warned:
  assumes rank: "mpi_rank (topology cfg) = 0" and nio: "\<not> inlet_outlet cfg"
    and ne: "newSimulationTotal (topology cfg) g \<noteq> totParticles g"
    and c: "totParticles g < newSimulationTotal (topology cfg) g \<or> \<not> no_leak_warning (clOptions cfg)"
    and r: "reconcile_total cfg W g = (x, g')"
  shows "\<exists>ms. console g' = console g
            @ CountChanged (iterations g) (totParticles g) (newSimulationTotal (topology cfg) g) # ms"
    and "x = None \<Longrightarrow> totParticles g' = newSimulationTotal (topology cfg) g"
    and "SINGLE_NODE (topology cfg) \<Longrightarrow> events g' = events g @ [dump_posted g, Barrier, Barrier]"
    and "\<not> SINGLE_NODE (topology cfg) \<Longrightarrow> x = None \<and> events g' = events g"
proof -
  let ?new = "newSimulationTotal (topology cfg) g"
  obtain x1 g1 where w: "warn_count_changed cfg W ?new g = (x1, g1)"
    by (cases "warn_count_changed cfg W ?new g")
  note e = warn_count_changed_effect [OF w]
  have "(x, g') = (case x1 of Some e \<Rightarrow> (Some e, g1) | None \<Rightarrow> (None, g1\<lparr>totParticles := ?new\<rparr>))"
    using rank nio ne c r w
    by (auto simp: reconcile_total_def Let_def seq_def if_then_def host_def split: option.splits)
  then have cases: "(x = None \<and> x1 = None \<and> g' = g1\<lparr>totParticles := ?new\<rparr>) \<or> (x = x1 \<and> x1 \<noteq> None \<and> g' = g1)"
    by (auto split: option.splits)
  from cases e(1) show "\<exists>ms. console g' = console g
            @ CountChanged (iterations g) (totParticles g) ?new # ms" by auto
  from cases show "x = None \<Longrightarrow> totParticles g' = ?new" by auto
  from cases e(3) show "SINGLE_NODE (topology cfg) \<Longrightarrow> events g' = events g @ [dump_posted g, Barrier, Barrier]"
    by auto
  from cases e(4) show "\<not> SINGLE_NODE (topology cfg) \<Longrightarrow> x = None \<and> events g' = events g"
    by auto
qed

lemma reconcile_total_silent:
  assumes rank: "mpi_rank (topology cfg) = 0" and nio: "\<not> inlet_outlet cfg"
    and ne: "newSimulationTotal (topology cfg) g \<noteq> totParticles g"
    and c: "\<not> (totParticles g < newSimulationTotal (topology cfg) g \<or> \<not> no_leak_warning (clOptions cfg))"
  shows "reconcile_total cfg W g = (None, g\<lparr>totParticles := newSimulationTotal (topology cfg) g\<rparr>)"
  using assms by (simp add: reconcile_total_def Let_def seq_def if_then_def host_def)

lemma check_capacity_effect:
  "events (check_capacity n g) = events g" "totParticles (check_capacity n g) = totParticles g"
  "quit_request (check_capacity n g) \<longleftrightarrow> quit_request g \<or> allocatedParticles g < n"
  "console (check_capacity n g)
     = console g @ (if allocatedParticles g < n
                    then [CapacityExceeded (iterations g) n (allocatedParticles g)] else [])"
  by (simp_all add: check_capacity_def printf_def)

lemma upt4: "[0..<4] = [0, 1, 2, 3]" "[0..<2] = [0, 1]"
  by (simp_all add: upt_rec)

text \<open>
  C9 as the claim states it fails for a warning that the option \<^verbatim>\<open>--no-leak-warning\<close>
  suppresses: with that option, two workers that report 1 particle each and a stored
  total of 4, \<^verbatim>\<open>updateArrayIndices\<close> returns with the total updated to 2, nothing on the
  console and no command posted, so no roll call either.
\<close>

theorem count_decrease_not_warned:
  "\<not> inlet_outlet quiet_config
   \<and> SINGLE_NODE (topology quiet_config)
   \<and> totParticles leaking_gdata = 4
   \<and> newSimulationTotal (topology quiet_config)
        (snd (updateArrayIndices quiet_config healthy_workers leaking_gdata)) = 2
   \<and> updateArrayIndices quiet_config healthy_workers leaking_gdata
       = (None, (counted quiet_config leaking_gdata)\<lparr>totParticles := 2\<rparr>)
   \<and> console (snd (updateArrayIndices quiet_config healthy_workers leaking_gdata)) = []
   \<and> events (snd (updateArrayIndices quiet_config healthy_workers leaking_gdata)) = []"
proof -
  let ?G = "counted quiet_config leaking_gdata"
  have tp: "mpi_rank (topology quiet_config) = 0" "devices (topology quiet_config) = 2"
    "mpi_nodes (topology quiet_config) = 1" "\<not> MULTI_NODE (topology quiet_config)"
    "SINGLE_NODE (topology quiet_config)" "\<not> inlet_outlet quiet_config"
    "no_leak_warning (clOptions quiet_config)"
    by (simp_all add: quiet_config_def example_config_def example_topology_def inlet_outlet_def
        has_flag_def)
  have n: "numInternalParticles leaking_gdata = (\<lambda>d. 1)" "totParticles leaking_gdata = 4"
    "allocatedParticles leaking_gdata = 6" "console leaking_gdata = []" "events leaking_gdata = []"
    by (simp_all add: leaking_gdata_def example_gdata_def)
  have c: "snd (count_devices (topology quiet_config) leaking_gdata) = 2"
    by (simp add: processCount_eq tp n)
  then have "processParticles ?G 0 = 2"
    by (simp add: counted_processParticles_local tp)
  then have new: "newSimulationTotal (topology quiet_config) ?G = 2"
    by (simp add: newSimulationTotal_def tp uadd_def)
  have G: "totParticles ?G = 4" "allocatedParticles ?G = 6" "console ?G = []" "events ?G = []"
    by (simp_all add: counted_fields counted_frame n)
  have "reconcile_total quiet_config healthy_workers ?G = (None, ?G\<lparr>totParticles := 2\<rparr>)"
    using reconcile_total_silent [of quiet_config ?G healthy_workers] tp new G by simp
  then have u: "updateArrayIndices quiet_config healthy_workers leaking_gdata
                = (None, ?G\<lparr>totParticles := 2\<rparr>)"
    by (simp add: updateArrayIndices_eq seq_def host_def c check_capacity_def G)
  have "newSimulationTotal (topology quiet_config) (?G\<lparr>totParticles := 2\<rparr>) = 2"
    using new by (simp add: newSimulationTotal_def)
  with u tp n G show ?thesis by simp
qed

lemma count_drift_effects:
  fixes cfg :: config and g :: "'a GlobalData" and W :: "'a workers"
  defines "g' \<equiv> snd (updateArrayIndices cfg W g)"
  defines "new \<equiv> newSimulationTotal (topology cfg) (snd (updateArrayIndices cfg W g))"
  defines "processCount \<equiv> snd (count_devices (topology cfg) g)"
  assumes rank: "mpi_rank (topology cfg) = 0" and nio: "\<not> inlet_outlet cfg"
    and ne: "new \<noteq> totParticles g"
  shows "(fst (updateArrayIndices cfg W g) = None \<longrightarrow>
            totParticles g' = new
            \<and> (quit_request g' \<longleftrightarrow> quit_request g \<or> allocatedParticles g < processCount))
       \<and> (totParticles g < new \<or> \<not> no_leak_warning (clOptions cfg) \<longrightarrow>
            CountChanged (iterations g) (totParticles g) new \<in> set (console g')
            \<and> (SINGLE_NODE (topology cfg) \<longrightarrow> dump_posted g \<in> set (events g')))
       \<and> (new < totParticles g \<and> no_leak_warning (clOptions cfg) \<longrightarrow>
            fst (updateArrayIndices cfg W g) = None \<and> events g' = events g
            \<and> console g' = console (check_capacity processCount g))
       \<and> (\<forall>e. fst (updateArrayIndices cfg W g) = Some e \<longrightarrow>
            roll_call_abort e \<and> SINGLE_NODE (topology cfg))"
proof -
  let ?G = "counted cfg g"
  let ?warn = "totParticles g < new \<or> \<not> no_leak_warning (clOptions cfg)"
  have "processParticles g' = processParticles ?G"
    unfolding g'_def by (rule updateArrayIndices_counts)
  then have new: "new = newSimulationTotal (topology cfg) ?G"
    unfolding new_def g'_def by (rule newSimulationTotal_cong)
  have G: "totParticles ?G = totParticles g" "iterations ?G = iterations g"
    "console ?G = console g" "events ?G = events g" "quit_request ?G = quit_request g"
    "allocatedParticles ?G = allocatedParticles g" "dump_posted ?G = dump_posted g"
    by (simp_all add: counted_fields counted_frame dump_posted_def)
  have ne': "newSimulationTotal (topology cfg) ?G \<noteq> totParticles ?G"
    using ne new G by simp
  show ?thesis
  proof (cases rule: updateArrayIndices_cases [of cfg W g])
    case (normal g5)
    have g': "g' = check_capacity processCount g5"
      using normal(2) by (simp add: g'_def processCount_def)
    have f: "quit_request g5 = quit_request g" "allocatedParticles g5 = allocatedParticles g"
      "iterations g5 = iterations g"
      using normal(3) G by (simp_all add: counts_frame_def counted_fields)
    have tot: "totParticles g5 = new"
    proof (cases ?warn)
      case True
      then have "totParticles ?G < newSimulationTotal (topology cfg) ?G
                 \<or> \<not> no_leak_warning (clOptions cfg)"
        using new G by simp
      from reconcile_total_warned(2) [OF rank nio ne' this normal(1)] new show ?thesis by simp
    next
      case False
      then have "\<not> (totParticles ?G < newSimulationTotal (topology cfg) ?G
                 \<or> \<not> no_leak_warning (clOptions cfg))"
        using new G by simp
      from reconcile_total_silent [OF rank nio ne' this, of W] normal(1) new show ?thesis by simp
    qed
    have c1: "totParticles g' = new
            \<and> (quit_request g' \<longleftrightarrow> quit_request g \<or> allocatedParticles g < processCount)"
      using tot f by (simp add: g' check_capacity_effect)
    have c2: "CountChanged (iterations g) (totParticles g) new \<in> set (console g')
            \<and> (SINGLE_NODE (topology cfg) \<longrightarrow> dump_posted g \<in> set (events g'))" if w: ?warn
    proof -
      from w have "totParticles ?G < newSimulationTotal (topology cfg) ?G
                 \<or> \<not> no_leak_warning (clOptions cfg)"
        using new G by simp
      note e = reconcile_total_warned [OF rank nio ne' this normal(1)]
      from e(1) have "CountChanged (iterations g) (totParticles g) new \<in> set (console g5)"
        using new G by auto
      moreover from e(3) have "SINGLE_NODE (topology cfg) \<Longrightarrow> dump_posted g \<in> set (events g5)"
        using G by simp
      ultimately show ?thesis by (auto simp: g' check_capacity_effect)
    qed
    have c3: "events g' = events g \<and> console g' = console (check_capacity processCount g)"
      if "\<not> ?warn"
    proof -
      from that have "\<not> (totParticles ?G < newSimulationTotal (topology cfg) ?G
                 \<or> \<not> no_leak_warning (clOptions cfg))"
        using new G by simp
      from reconcile_total_silent [OF rank nio ne' this, of W] normal(1)
      have "g5 = ?G\<lparr>totParticles := newSimulationTotal (topology cfg) ?G\<rparr>" by simp
      then show ?thesis using G by (simp add: g' check_capacity_effect)
    qed
    from c1 c2 c3 normal(2) ne show ?thesis by auto
  next
    case (abort e g5)
    have g': "g' = g5" using abort(2) by (simp add: g'_def)
    have w: ?warn
    proof (rule ccontr)
      assume "\<not> ?warn"
      then have "\<not> (totParticles ?G < newSimulationTotal (topology cfg) ?G
                 \<or> \<not> no_leak_warning (clOptions cfg))"
        using new G by simp
      from reconcile_total_silent [OF rank nio ne' this, of W] abort(1) show False by simp
    qed
    then have w': "totParticles ?G < newSimulationTotal (topology cfg) ?G
                 \<or> \<not> no_leak_warning (clOptions cfg)"
      using new G by simp
    note e = reconcile_total_warned [OF rank nio ne' w' abort(1)]
    have single: "SINGLE_NODE (topology cfg)" using e(4) by auto
    from e(1) have "CountChanged (iterations g) (totParticles g) new \<in> set (console g')"
      using new G by (auto simp: g')
    moreover from e(3) single have "dump_posted g \<in> set (events g')"
      using G by (simp add: g')
    ultimately show ?thesis using abort(2,4) single w by auto
  qed
qed

lemma doCommand_result:
  "doCommand W c f a g
     = (if keep_going (snd (doCommand W c f a g)) then None else Some worker_abort,
        snd (doCommand W c f a g))"
  by (simp add: doCommand_def Let_def worker_abort_def)

lemma drift_roll_call:
  assumes rank: "mpi_rank (topology cfg) = 0" and nio: "\<not> inlet_outlet cfg"
    and ne: "newSimulationTotal (topology cfg) (counted cfg g) \<noteq> totParticles g"
    and c: "totParticles g < newSimulationTotal (topology cfg) (counted cfg g)
            \<or> \<not> no_leak_warning (clOptions cfg)"
    and single: "SINGLE_NODE (topology cfg)"
  shows "updateArrayIndices cfg W g
     = (if keep_going (before_roll_call cfg W g)
        then seq (rollCallParticles (topology cfg))
               (host (\<lambda>g3. check_capacity (snd (count_devices (topology cfg) g))
                              (g3\<lparr>totParticles := newSimulationTotal (topology cfg) (counted cfg g)\<rparr>)))
               (before_roll_call cfg W g)
        else (Some worker_abort, before_roll_call cfg W g))"
proof -
  let ?G = "counted cfg g"
  let ?new = "newSimulationTotal (topology cfg) ?G"
  let ?G1 = "printf (CountChanged (iterations g) (totParticles g) ?new) ?G"
  have G: "totParticles ?G = totParticles g" "iterations ?G = iterations g"
    by (simp_all add: counted_fields)
  have d: "doCommand W DUMP {''BUFFER_INFO'', ''DBLBUFFER_READ''} default_arg ?G1
           = (if keep_going (before_roll_call cfg W g) then None else Some worker_abort,
              before_roll_call cfg W g)"
    unfolding before_roll_call_def doCommand0_def by (rule doCommand_result)
  have w: "warn_count_changed cfg W ?new ?G
           = (if keep_going (before_roll_call cfg W g)
              then rollCallParticles (topology cfg) (before_roll_call cfg W g)
              else (Some worker_abort, before_roll_call cfg W g))"
    using single
    by (simp add: warn_count_changed_def seq_def host_def if_then_def doCommand0_def G d)
  have r: "reconcile_total cfg W ?G
           = seq (warn_count_changed cfg W ?new) (host (\<lambda>g'. g'\<lparr>totParticles := ?new\<rparr>)) ?G"
    using rank nio ne c
    by (simp add: reconcile_total_def Let_def G if_then_def seq_def)
  show ?thesis
    unfolding updateArrayIndices_eq
    by (cases "rollCallParticles (topology cfg) (before_roll_call cfg W g)")
       (auto simp: seq_def r w host_def split: option.splits)
qed

lemma upt12: "[Suc 0..<2] = [Suc 0]"
  by (simp add: upt_rec)

lemma leaking_duplicated_run:
  "fst (updateArrayIndices example_config healthy_workers leaking_duplicated_gdata) = None"
  "totParticles (snd (updateArrayIndices example_config healthy_workers leaking_duplicated_gdata)) = 2"
  "console (snd (updateArrayIndices example_config healthy_workers leaking_duplicated_gdata))
     = [CountChanged 0 4 2, RollCallDouble 0 0 0 1, RollCallMissing 0 1,
        Line ''Recap of devices after roll call:'', RecapDevice 0 1 0, RecapDevice 1 1 1]"
  "m_rcNotified (snd (updateArrayIndices example_config healthy_workers leaking_duplicated_gdata)) 0"
  "m_rcNotified (snd (updateArrayIndices example_config healthy_workers leaking_duplicated_gdata)) 1"
  by (simp_all add: updateArrayIndices_def Let_def count_devices_def update_offsets_def
      shift_devices_def add_previous_nodes_def newSimulationTotal_def uadd_def
      reconcile_total_def warn_count_changed_def check_capacity_def inlet_outlet_def has_flag_def
      seq_def host_def if_then_def doCommand0_def doCommand_def post_def barrier_def
      run_workers_def healthy_workers_def
      rollCallParticles_def leaking_duplicated_gdata_def example_gdata_def example_config_def
      example_topology_def rc_reset_def rc_fill_def rc_missing_def rc_recap_def printf_def
      WARN_EVERY_TIME_def upt4 upt12)

lemma leaking_duplicated_dump:
  "keep_going (before_roll_call example_config healthy_workers leaking_duplicated_gdata)"
  by (simp add: before_roll_call_def doCommand0_def doCommand_def Let_def post_def barrier_def
      run_workers_def healthy_workers_def printf_def counted_frame
      leaking_duplicated_gdata_def example_gdata_def)

lemma drift_no_roll_call:
  assumes rank: "mpi_rank (topology cfg) = 0" and nio: "\<not> inlet_outlet cfg"
    and ne: "newSimulationTotal (topology cfg) (counted cfg g) \<noteq> totParticles g"
    and c: "totParticles g < newSimulationTotal (topology cfg) (counted cfg g)
            \<or> \<not> no_leak_warning (clOptions cfg)"
    and multi: "\<not> SINGLE_NODE (topology cfg)"
  shows "updateArrayIndices cfg W g
     = (None, check_capacity (snd (count_devices (topology cfg) g))
                ((printf (CountChanged (iterations g) (totParticles g)
                            (newSimulationTotal (topology cfg) (counted cfg g)))
                    (counted cfg g))
                 \<lparr>totParticles := newSimulationTotal (topology cfg) (counted cfg g)\<rparr>))"
proof -
  let ?G = "counted cfg g"
  have G: "totParticles ?G = totParticles g" "iterations ?G = iterations g"
    by (simp_all add: counted_fields)
  show ?thesis
    unfolding updateArrayIndices_eq
    using rank nio ne c multi
    by (simp add: reconcile_total_def Let_def G if_then_def seq_def warn_count_changed_def
        host_def)
qed

text \<open>
  C9, amended. On the process of rank 0, without open boundaries, when the total
  recomputed from the counts of the nodes differs from the stored one: the warning is
  printed if the total has grown or the option \<^verbatim>\<open>--no-leak-warning\<close> was not given. Then,
  in single-node mode, the \<^verbatim>\<open>DUMP\<close> command is posted and, unless a worker fails on
  it, \<^verbatim>\<open>rollCallParticles\<close> is run on the state the command leaves: what
  \<^verbatim>\<open>updateArrayIndices\<close> returns is what the roll call returns from that state, followed
  by the update of the total and the capacity test. In multi-node mode the warning is
  all there is. If the total has shrunk and the option was given, nothing is printed
  or posted for it. When \<^verbatim>\<open>updateArrayIndices\<close> returns, the stored total is the
  recomputed one, whichever way it changed, and the quit request is set only by the
  capacity test. The function returns unless the roll call, which runs in single-node
  mode only, is left by the runtime error of \<^verbatim>\<open>doCommand\<close> or by an access outside
  its arrays.
\<close>

theorem count_drift_is_diagnostic:
  fixes cfg :: config and g :: "'a GlobalData" and W :: "'a workers"
  defines "g' \<equiv> snd (updateArrayIndices cfg W g)"
  defines "new \<equiv> newSimulationTotal (topology cfg) (snd (updateArrayIndices cfg W g))"
  defines "processCount \<equiv> snd (count_devices (topology cfg) g)"
  assumes rank: "mpi_rank (topology cfg) = 0" and nio: "\<not> inlet_outlet cfg"
    and ne: "new \<noteq> totParticles g"
  shows "(fst (updateArrayIndices cfg W g) = None \<longrightarrow>
            totParticles g' = new
            \<and> (quit_request g' \<longleftrightarrow> quit_request g \<or> allocatedParticles g < processCount))
       \<and> (totParticles g < new \<or> \<not> no_leak_warning (clOptions cfg) \<longrightarrow>
            CountChanged (iterations g) (totParticles g) new \<in> set (console g')
            \<and> (SINGLE_NODE (topology cfg) \<longrightarrow>
                  dump_posted g \<in> set (events g')
                  \<and> updateArrayIndices cfg W g
                      = (if keep_going (before_roll_call cfg W g)
                         then seq (rollCallParticles (topology cfg))
                                (host (\<lambda>g3. check_capacity processCount
                                               (g3\<lparr>totParticles := new\<rparr>)))
                                (before_roll_call cfg W g)
                         else (Some worker_abort, before_roll_call cfg W g)))
            \<and> (\<not> SINGLE_NODE (topology cfg) \<longrightarrow>
                  updateArrayIndices cfg W g
                    = (None, check_capacity processCount
                               ((printf (CountChanged (iterations g) (totParticles g) new)
                                   (counted cfg g))\<lparr>totParticles := new\<rparr>))))
       \<and> (new < totParticles g \<and> no_leak_warning (clOptions cfg) \<longrightarrow>
            fst (updateArrayIndices cfg W g) = None \<and> events g' = events g
            \<and> console g' = console (check_capacity processCount g))
       \<and> (\<forall>e. fst (updateArrayIndices cfg W g) = Some e \<longrightarrow>
            roll_call_abort e \<and> SINGLE_NODE (topology cfg))"
proof -
  let ?r = "updateArrayIndices cfg W g"
  let ?new = "newSimulationTotal (topology cfg) (snd ?r)"
  have "processParticles (snd ?r) = processParticles (counted cfg g)"
    by (rule updateArrayIndices_counts)
  then have n: "?new = newSimulationTotal (topology cfg) (counted cfg g)"
    by (rule newSimulationTotal_cong)
  have ne0: "?new \<noteq> totParticles g" using ne by (simp add: new_def)
  have ne1: "newSimulationTotal (topology cfg) (counted cfg g) \<noteq> totParticles g"
    using ne0 n by simp
  note eff = count_drift_effects [OF rank nio ne0]
  have rc: "?r = (if keep_going (before_roll_call cfg W g)
                  then seq (rollCallParticles (topology cfg))
                         (host (\<lambda>g3. check_capacity (snd (count_devices (topology cfg) g))
                                        (g3\<lparr>totParticles := ?new\<rparr>)))
                         (before_roll_call cfg W g)
                  else (Some worker_abort, before_roll_call cfg W g))"
    if w: "totParticles g < ?new \<or> \<not> no_leak_warning (clOptions cfg)"
      and s: "SINGLE_NODE (topology cfg)"
  proof -
    from w have "totParticles g < newSimulationTotal (topology cfg) (counted cfg g)
                 \<or> \<not> no_leak_warning (clOptions cfg)"
      by (simp only: n)
    then show ?thesis unfolding n by (rule drift_roll_call [OF rank nio ne1 _ s])
  qed
  have nrc: "?r = (None, check_capacity (snd (count_devices (topology cfg) g))
                           ((printf (CountChanged (iterations g) (totParticles g) ?new)
                               (counted cfg g))\<lparr>totParticles := ?new\<rparr>))"
    if w: "totParticles g < ?new \<or> \<not> no_leak_warning (clOptions cfg)"
      and s: "\<not> SINGLE_NODE (topology cfg)"
  proof -
    from w have "totParticles g < newSimulationTotal (topology cfg) (counted cfg g)
                 \<or> \<not> no_leak_warning (clOptions cfg)"
      by (simp only: n)
    then show ?thesis unfolding n by (rule drift_no_roll_call [OF rank nio ne1 _ s])
  qed
  show ?thesis
    unfolding g'_def new_def processCount_def
    using eff rc nrc by blast
qed

theorem count_drift_is_diagnostic_witness:
  "mpi_rank (topology example_config) = 0
   \<and> \<not> inlet_outlet example_config
   \<and> newSimulationTotal (topology example_config)
        (snd (updateArrayIndices example_config healthy_workers leaking_duplicated_gdata))
       \<noteq> totParticles leaking_duplicated_gdata
   \<and> SINGLE_NODE (topology example_config)
   \<and> keep_going (before_roll_call example_config healthy_workers leaking_duplicated_gdata)
   \<and> updateArrayIndices example_config healthy_workers leaking_duplicated_gdata
       = seq (rollCallParticles (topology example_config))
           (host (\<lambda>g3. check_capacity 2 (g3\<lparr>totParticles := 2\<rparr>)))
           (before_roll_call example_config healthy_workers leaking_duplicated_gdata)
   \<and> fst (updateArrayIndices example_config healthy_workers leaking_duplicated_gdata) = None
   \<and> totParticles (snd (updateArrayIndices example_config healthy_workers leaking_duplicated_gdata))
       = 2
   \<and> console (snd (updateArrayIndices example_config healthy_workers leaking_duplicated_gdata))
       = [CountChanged 0 4 2, RollCallDouble 0 0 0 1, RollCallMissing 0 1,
          Line ''Recap of devices after roll call:'', RecapDevice 0 1 0, RecapDevice 1 1 1]
   \<and> dump_posted leaking_duplicated_gdata
       \<in> set (events (snd (updateArrayIndices example_config healthy_workers
                             leaking_duplicated_gdata)))"
proof -
  let ?g' = "snd (updateArrayIndices example_config healthy_workers leaking_duplicated_gdata)"
  have n: "numInternalParticles leaking_duplicated_gdata = (\<lambda>d. 1)"
    "totParticles leaking_duplicated_gdata = 4" "iterations leaking_duplicated_gdata = 0"
    by (simp_all add: leaking_duplicated_gdata_def example_gdata_def)
  have c: "snd (count_devices (topology example_config) leaking_duplicated_gdata) = 2"
    by (simp add: processCount_eq example_topology_fields n)
  then have "processParticles ?g' 0 = 2"
    by (simp add: updateArrayIndices_counts counted_processParticles_local example_topology_fields)
  then have new: "newSimulationTotal (topology example_config) ?g' = 2"
    by (simp add: newSimulationTotal_def example_topology_fields uadd_def)
  have ne: "newSimulationTotal (topology example_config) ?g' \<noteq> totParticles leaking_duplicated_gdata"
    by (simp add: new n)
  have w: "totParticles leaking_duplicated_gdata
             < newSimulationTotal (topology example_config) ?g'
           \<or> \<not> no_leak_warning (clOptions example_config)"
    by (simp add: example_topology_fields)
  note single = example_topology_fields(5)
  note kg = leaking_duplicated_dump
  from count_drift_is_diagnostic [of example_config healthy_workers leaking_duplicated_gdata,
      OF example_topology_fields(1) example_topology_fields(6) ne] w single
  have posted: "dump_posted leaking_duplicated_gdata \<in> set (events ?g')"
    and eq0: "updateArrayIndices example_config healthy_workers leaking_duplicated_gdata
       = (if keep_going (before_roll_call example_config healthy_workers leaking_duplicated_gdata)
          then seq (rollCallParticles (topology example_config))
                 (host (\<lambda>g3. check_capacity
                          (snd (count_devices (topology example_config) leaking_duplicated_gdata))
                          (g3\<lparr>totParticles :=
                                newSimulationTotal (topology example_config) ?g'\<rparr>)))
                 (before_roll_call example_config healthy_workers leaking_duplicated_gdata)
          else (Some worker_abort,
                before_roll_call example_config healthy_workers leaking_duplicated_gdata))"
    by blast+
  have eq: "updateArrayIndices example_config healthy_workers leaking_duplicated_gdata
       = seq (rollCallParticles (topology example_config))
           (host (\<lambda>g3. check_capacity 2 (g3\<lparr>totParticles := 2\<rparr>)))
           (before_roll_call example_config healthy_workers leaking_duplicated_gdata)"
    using eq0 unfolding new c by (simp only: kg if_True)
  note run = leaking_duplicated_run(1-3)
  note rank = example_topology_fields(1) and nio = example_topology_fields(6)
  show ?thesis
    by (intro conjI) (fact rank nio ne single kg eq run posted)+
qed

section \<open>Warnings of the roll call\<close>

lemma warned_ids_append: "warned_ids (xs @ ys) = warned_ids xs @ warned_ids ys"
  by (induction xs) (auto split: option.splits)

lemma rc_same_once: "rc_same g g' \<Longrightarrow> rc_once g \<Longrightarrow> rc_once g'"
  by (simp add: rc_same_def rc_once_def)

lemma rc_once_notify:
  "rc_once g \<Longrightarrow> rc_once (g\<lparr>m_rcNotified := (m_rcNotified g)(i := True)\<rparr>)"
  by (auto simp: rc_once_def list_all_iff)

lemma rc_once_warn:
  assumes "rc_once g" "\<not> m_rcNotified g i" "warned_id m = Some i"
  shows "rc_once ((printf m g)\<lparr>m_rcNotified := (m_rcNotified (printf m g))(i := True)\<rparr>)"
  using assms by (auto simp: rc_once_def list_all_iff printf_def warned_ids_append)

lemma rc_reset_once:
  "rc_reset i r = (x, r') \<Longrightarrow>
     (rc_once (rc_gdata r) \<longrightarrow> rc_once (rc_gdata r'))
     \<and> (\<forall>j. m_rcNotified (rc_gdata r) j \<longrightarrow> m_rcNotified (rc_gdata r') j)"
  by (auto simp: rc_reset_def Let_def rc_once_def split: if_splits)

lemma rc_fill_once:
  assumes "rc_fill i r = (x, r')"
  shows "(rc_once (rc_gdata r) \<longrightarrow> rc_once (rc_gdata r'))
     \<and> (\<forall>j. m_rcNotified (rc_gdata r) j \<longrightarrow> m_rcNotified (rc_gdata r') j)"
proof -
  let ?g = "rc_gdata r"
  let ?id = "BUFFER_INFO ?g ! i"
  have same: "rc_once (g'\<lparr>m_rcBitmap := b, m_rcAddrs := a\<rparr>) = rc_once g'"
    for g' :: "'a GlobalData" and b a
    by (simp add: rc_once_def)
  have w: "rc_once ?g \<Longrightarrow> \<not> m_rcNotified ?g ?id \<Longrightarrow>
           rc_once ((printf m ?g)\<lparr>m_rcNotified := (m_rcNotified (printf m ?g))(?id := True)\<rparr>)"
    if "warned_id m = Some ?id" for m
    using that by (rule rc_once_warn [rotated 2])
  have n: "rc_once ?g \<Longrightarrow> rc_once (?g\<lparr>m_rcNotified := (m_rcNotified ?g)(?id := True)\<rparr>)"
    by (rule rc_once_notify)
  from assms show ?thesis
    using w [of "RollCallDouble (iterations ?g) ?id (m_rcAddrs ?g ?id) i"] n
    by (auto simp: rc_fill_def Let_def same printf_def split: if_splits)
qed

lemma rc_missing_once:
  assumes "rc_missing i r = (x, r')"
  shows "(rc_once (rc_gdata r) \<longrightarrow> rc_once (rc_gdata r'))
     \<and> (\<forall>j. m_rcNotified (rc_gdata r) j \<longrightarrow> m_rcNotified (rc_gdata r') j)"
proof -
  let ?g = "rc_gdata r"
  have w: "rc_once ?g \<Longrightarrow> \<not> m_rcNotified ?g i \<Longrightarrow>
           rc_once ((printf m ?g)\<lparr>m_rcNotified := (m_rcNotified (printf m ?g))(i := True)\<rparr>)"
    if "warned_id m = Some i" for m
    using that by (rule rc_once_warn [rotated 2])
  have n: "rc_once ?g \<Longrightarrow> rc_once (?g\<lparr>m_rcNotified := (m_rcNotified ?g)(i := True)\<rparr>)"
    by (rule rc_once_notify)
  from assms show ?thesis
    using w [of "RollCallMissing (iterations ?g) i"] n
    by (auto simp: rc_missing_def Let_def printf_def split: if_splits)
qed

lemma rc_loop_once:
  assumes step: "\<And>i r x r'. body i r = (x, r') \<Longrightarrow>
     (rc_once (rc_gdata r) \<longrightarrow> rc_once (rc_gdata r'))
     \<and> (\<forall>j. m_rcNotified (rc_gdata r) j \<longrightarrow> m_rcNotified (rc_gdata r') j)"
  shows "for_loop ns body r = (x, r') \<Longrightarrow>
     (rc_once (rc_gdata r) \<longrightarrow> rc_once (rc_gdata r'))
     \<and> (\<forall>j. m_rcNotified (rc_gdata r) j \<longrightarrow> m_rcNotified (rc_gdata r') j)"
  by (rule for_loop_relation
      [where R = "\<lambda>r r'. (rc_once (rc_gdata r) \<longrightarrow> rc_once (rc_gdata r'))
                   \<and> (\<forall>j. m_rcNotified (rc_gdata r) j \<longrightarrow> m_rcNotified (rc_gdata r') j)"
         and body = body])
     (auto dest: step)

lemma rc_recap_same: "rc_same g (rc_recap tp g)"
proof -
  have "rc_same g (foldl (\<lambda>g' d. printf (RecapDevice d (s_hPartsPerDevice g' d) (s_hStartPerDevice g' d)) g') g0 ds)"
    if "rc_same g g0" for g0 ds
    using that by (induction ds arbitrary: g0) (auto simp: rc_same_def printf_def warned_ids_append)
  note fold = this
  have "rc_same g (printf (Line ''Recap of devices after roll call:'') g)"
    by (simp add: rc_same_def printf_def warned_ids_append)
  then show ?thesis
    unfolding rc_recap_def by (rule fold)
qed

lemma rollCallParticles_once:
  assumes "rollCallParticles tp g = (x, g')"
  shows "(rc_once g \<longrightarrow> rc_once g') \<and> (\<forall>j. m_rcNotified g j \<longrightarrow> m_rcNotified g' j)"
proof -
  let ?n = "processParticles g (mpi_rank tp)"
  let ?r0 = "\<lparr>rc_gdata = g, all_normal = True,
                first_double_warned = False, first_missing_warned = False\<rparr>"
  obtain x1 r1 where 1: "for_loop [0..<?n] rc_reset ?r0 = (x1, r1)" by (cases "for_loop [0..<?n] rc_reset ?r0")
  obtain x2 r2 where 2: "for_loop [0..<?n] rc_fill r1 = (x2, r2)" by (cases "for_loop [0..<?n] rc_fill r1")
  obtain x3 r3 where 3: "for_loop [0..<?n] rc_missing r2 = (x3, r3)" by (cases "for_loop [0..<?n] rc_missing r2")
  have f1: "(rc_once g \<longrightarrow> rc_once (rc_gdata r1)) \<and> (\<forall>j. m_rcNotified g j \<longrightarrow> m_rcNotified (rc_gdata r1) j)"
    using rc_loop_once [of rc_reset, OF rc_reset_once 1] by simp
  have f2: "(rc_once (rc_gdata r1) \<longrightarrow> rc_once (rc_gdata r2))
     \<and> (\<forall>j. m_rcNotified (rc_gdata r1) j \<longrightarrow> m_rcNotified (rc_gdata r2) j)"
    by (rule rc_loop_once [of rc_fill, OF rc_fill_once 2])
  have f3: "(rc_once (rc_gdata r2) \<longrightarrow> rc_once (rc_gdata r3))
     \<and> (\<forall>j. m_rcNotified (rc_gdata r2) j \<longrightarrow> m_rcNotified (rc_gdata r3) j)"
    by (rule rc_loop_once [of rc_missing, OF rc_missing_once 3])
  have f4: "(rc_once (rc_gdata r3) \<longrightarrow> rc_once (rc_recap tp (rc_gdata r3)))
     \<and> (\<forall>j. m_rcNotified (rc_gdata r3) j \<longrightarrow> m_rcNotified (rc_recap tp (rc_gdata r3)) j)"
    using rc_recap_same [of "rc_gdata r3" tp] by (auto simp: rc_same_def rc_once_def)
  have "g' = rc_gdata r1 \<or> g' = rc_gdata r2 \<or> g' = rc_gdata r3 \<or> g' = rc_recap tp (rc_gdata r3)"
    using assms 1 2 3
    by (auto simp: rollCallParticles_def Let_def split: option.splits if_splits)
  with f1 f2 f3 f4 show ?thesis by blast
qed

lemma rc_once_printf: "warned_id m = None \<Longrightarrow> rc_once g \<Longrightarrow> rc_once (printf m g)"
  by (simp add: rc_once_def printf_def warned_ids_append)

lemma doCommand_once: "hoare rc_once (doCommand W c f a) rc_once (\<lambda>e. rc_once)"
  by (rule hoareI)
     (auto simp: doCommand_def Let_def post_def barrier_def run_workers_def rc_once_def
        split: if_splits)

lemma set_only_internal_once: "hoare rc_once (set_only_internal b) rc_once E"
  unfolding set_only_internal_def
  by (rule hoare_host) (simp add: rc_once_def)

lemma throw_once: "hoare rc_once (throw e) rc_once (\<lambda>e. rc_once)"
  by (rule hoare_throw)

lemma rollCallParticles_once_hoare: "hoare rc_once (rollCallParticles tp) rc_once (\<lambda>e. rc_once)"
proof (rule hoareI)
  fix g g' assume "rc_once g" "rollCallParticles tp g = (None, g')"
  with rollCallParticles_once [of tp g None g'] show "rc_once g'" by simp
next
  fix g g' e assume "rc_once g" "rollCallParticles tp g = (Some e, g')"
  with rollCallParticles_once [of tp g "Some e" g'] show "rc_once g'" by simp
qed

lemma warn_count_changed_once:
  "hoare rc_once (warn_count_changed cfg W new) rc_once (\<lambda>e. rc_once)"
  unfolding warn_count_changed_def doCommand0_def
  by (intro hoare_seq [where R = rc_once] hoare_if_then hoare_host doCommand_once
      rollCallParticles_once_hoare rc_once_printf) simp

lemma reconcile_total_once:
  "hoare rc_once (reconcile_total cfg W) rc_once (\<lambda>e. rc_once)"
proof -
  have tot: "rc_once g \<Longrightarrow> rc_once (g\<lparr>totParticles := n\<rparr>)" for g :: "'a GlobalData" and n
    by (simp add: rc_once_def)
  have branch: "hoare rc_once
      (seq (if_then (\<lambda>g'. totParticles g' < new \<or> \<not> no_leak_warning (clOptions cfg))
                  (warn_count_changed cfg W new))
               (host (\<lambda>g'. g'\<lparr>totParticles := new\<rparr>))) rc_once (\<lambda>e. rc_once)" for new
    by (intro hoare_seq [where R = rc_once] hoare_if_then hoare_host tot warn_count_changed_once)
  show ?thesis
  proof (rule hoareI)
    fix g g' :: "'a GlobalData" assume "rc_once g" "reconcile_total cfg W g = (None, g')"
    then show "rc_once g'"
      using tot hoareD_normal [OF branch]
      by (auto simp: reconcile_total_def Let_def split: if_splits)
  next
    fix g g' :: "'a GlobalData" and e assume "rc_once g" "reconcile_total cfg W g = (Some e, g')"
    then show "rc_once g'"
      using hoareD_abort [OF branch]
      by (auto simp: reconcile_total_def Let_def split: if_splits)
  qed
qed

lemma updateArrayIndices_once:
  "hoare rc_once (updateArrayIndices cfg W) rc_once (\<lambda>e. rc_once)"
proof -
  have cap: "hoare rc_once (host (check_capacity n)) rc_once (\<lambda>e. rc_once)" for n
    by (rule hoare_host)
       (simp add: check_capacity_def rc_once_def printf_def warned_ids_append)
  have body: "hoare rc_once (seq (reconcile_total cfg W) (host (check_capacity n)))
                rc_once (\<lambda>e. rc_once)" for n
    by (intro hoare_seq [where R = rc_once] cap reconcile_total_once)
  have pre: "rc_once g \<Longrightarrow> rc_once (counted cfg g)" for g :: "'a GlobalData"
    by (simp add: rc_once_def counted_def Let_def count_devices_eq update_offsets_def)
  show ?thesis
  proof (rule hoareI)
    fix g g' :: "'a GlobalData" assume "rc_once g" "updateArrayIndices cfg W g = (None, g')"
    then show "rc_once g'"
      using hoareD_normal [OF body pre] by (simp add: updateArrayIndices_eq)
  next
    fix g g' :: "'a GlobalData" and e
    assume "rc_once g" "updateArrayIndices cfg W g = (Some e, g')"
    then show "rc_once g'"
      using hoareD_abort [OF body pre] by (simp add: updateArrayIndices_eq)
  qed
qed

lemma update_particlesCreated_once: "hoare rc_once (host (update_particlesCreated cfg)) rc_once E"
  by (rule hoare_host) (simp add: rc_once_def update_particlesCreated_def Let_def)

lemma loop_commands_once: "hoare rc_once (loop_commands cfg W) rc_once (\<lambda>e. rc_once)"
  by (intro loop_commands_hoare doCommand_once set_only_internal_once throw_once
      updateArrayIndices_once update_particlesCreated_once)

lemma advance_time_once: "rc_once g \<Longrightarrow> rc_once (advance_time cfg g)"
  by (simp add: advance_time_def adapt_dt_def Let_def rc_once_def)

lemma check_dt_once: "hoare rc_once (check_dt pt) rc_once (\<lambda>e. rc_once)"
  by (rule hoareI)
     (auto simp: check_dt_def Let_def rc_once_def printf_def warned_ids_append split: if_splits)

lemma printStatus_once: "hoare rc_once printStatus rc_once E"
  unfolding printStatus_def
  by (rule hoare_host) (simp add: rc_once_printf)

lemma write_and_finish_once: "hoare rc_once (write_and_finish cfg W) rc_once (\<lambda>e. rc_once)"
proof -
  have stop: "hoare rc_once (if_then c (host (\<lambda>g'. g'\<lparr>keep_going := False\<rparr>))) rc_once (\<lambda>e. rc_once)"
    for c :: "'a GlobalData \<Rightarrow> bool"
    by (rule hoare_if_then, rule hoare_host) (simp add: rc_once_def)
  have save: "hoare rc_once
      (if_then c1 (if_then c2 (seq (saveParticles cfg W engines fl) (if_then c3 printStatus))))
      rc_once (\<lambda>e. rc_once)"
    for c1 c2 c3 :: "'a GlobalData \<Rightarrow> bool" and engines fl
    by (intro hoare_if_then hoare_seq [where R = rc_once] saveParticles_hoare
        doCommand_once set_only_internal_once printStatus_once)
  have both: "hoare rc_once
      (seq (if_then c1 (if_then c2 (seq (saveParticles cfg W engines fl) (if_then c3 printStatus))))
           (if_then c4 (host (\<lambda>g'. g'\<lparr>keep_going := False\<rparr>))))
      rc_once (\<lambda>e. rc_once)"
    for c1 c2 c3 c4 :: "'a GlobalData \<Rightarrow> bool" and engines fl
    by (rule hoare_seq [where R = rc_once, OF save stop])
  show ?thesis
    unfolding write_and_finish_def Let_def
    apply (rule hoare_compose_pre [where P' = rc_once])
     apply (simp add: rc_once_def)
    apply (rule both)
    done
qed

lemma finish_iteration_once: "hoare rc_once (finish_iteration cfg W) rc_once (\<lambda>e. rc_once)"
  unfolding finish_iteration_def
  apply (rule hoare_compose_pre [where P' = rc_once])
   apply (erule advance_time_once)
  apply (rule hoare_seq [where R = rc_once, OF check_dt_once write_and_finish_once])
  done

lemma loop_body_once: "hoare rc_once (loop_body cfg W) rc_once (\<lambda>e. rc_once)"
  unfolding loop_body_def
  by (intro hoare_seq [where R = rc_once] loop_commands_once finish_iteration_once)

lemma catch_exception_once: "rc_once g \<Longrightarrow> rc_once (catch_exception e g)"
  by (simp add: rc_once_def catch_exception_def forceUnlock_def printf_def warned_ids_append)

lemma iteration_once:
  assumes "rc_once g"
  shows "rc_once (snd (iteration cfg W g))"
proof (cases "loop_body cfg W g")
  case (Pair r g')
  show ?thesis
  proof (cases r)
    case None
    with Pair hoareD_normal [OF loop_body_once assms] show ?thesis
      by (simp add: iteration_def try_catch_def)
  next
    case (Some e)
    with Pair hoareD_abort [OF loop_body_once assms] have "rc_once g'" by blast
    with Pair Some show ?thesis
      by (simp add: iteration_def try_catch_def catch_exception_once)
  qed
qed

lemma simulation_loop_once:
  assumes run: "simulation_loop cfg W g = Some r" and pl: "rc_once g"
  shows "rc_once (snd r)"
proof -
  have "rc_once g \<longrightarrow> rc_once (snd r)"
  proof (rule simulation_loop.raw_induct
      [where P = "\<lambda>cfg W g r. rc_once g \<longrightarrow> rc_once (snd r)", OF _ run])
    fix loop :: "config \<Rightarrow> 'a workers \<Rightarrow> 'a GlobalData \<Rightarrow> (abort option \<times> 'a GlobalData) option"
    fix cfg W g r
    assume IH: "\<And>cfg W g r. loop cfg W g = Some r \<Longrightarrow> rc_once g \<longrightarrow> rc_once (snd r)"
      and eq: "(if keep_going g
                then case iteration cfg W g of (None, g') \<Rightarrow> loop cfg W g'
                     | (Some e, g') \<Rightarrow> Some (Some e, g')
                else Some (None, g)) = Some r"
    show "rc_once g \<longrightarrow> rc_once (snd r)"
    proof
      assume p: "rc_once g"
      show "rc_once (snd r)"
      proof (cases "keep_going g")
        case False
        with eq p show ?thesis by auto
      next
        case True
        from iteration_once [OF p] have pl: "rc_once (snd (iteration cfg W g))" .
        show ?thesis
        proof (cases "iteration cfg W g")
          case (Pair x g')
          with pl have p': "rc_once g'" by simp
          show ?thesis
          proof (cases x)
            case None
            with Pair True eq have "loop cfg W g' = Some r" by simp
            from IH [OF this] p' show ?thesis by blast
          next
            case (Some e)
            with Pair True eq have "r = (Some e, g')" by simp
            with p' show ?thesis by simp
          qed
        qed
      qed
    qed
  qed
  with pl show ?thesis by blast
qed

lemma dup_first:
  "console (snd (rollCallParticles example_topology duplicated_gdata))
     = [RollCallDouble 0 0 0 1, RollCallMissing 0 1, Line ''Recap of devices after roll call:'',
        RecapDevice 0 0 0, RecapDevice 1 0 0]"
  "fst (rollCallParticles example_topology duplicated_gdata) = None"
  by (simp_all add: rollCallParticles_def Let_def duplicated_gdata_def example_gdata_def
      example_topology_def rc_reset_def rc_fill_def rc_missing_def rc_recap_def printf_def
      WARN_EVERY_TIME_def upt4)

lemma dup_second:
  "console (snd (rollCallParticles example_topology
                   (snd (rollCallParticles example_topology duplicated_gdata))))
     = console (snd (rollCallParticles example_topology duplicated_gdata))"
  by (simp add: rollCallParticles_def Let_def duplicated_gdata_def example_gdata_def
      example_topology_def rc_reset_def rc_fill_def rc_missing_def rc_recap_def printf_def
      WARN_EVERY_TIME_def upt4)

text \<open>
  C10. If no particle id has two warnings of the roll call on the console and every id
  with a warning is marked in \<^verbatim>\<open>m_rcNotified\<close> (as at the start of the run, when nothing
  has been printed), then this is still so after a roll call, after an iteration of the
  main loop, and at the end of the main loop, however they end; and a roll call
  leaves every mark of \<^verbatim>\<open>m_rcNotified\<close> set. So over the run each id gets at most
  one warning.
\<close>

theorem roll_call_warns_once:
  assumes "rc_once g"
  shows "rc_once (snd (rollCallParticles tp g))
       \<and> (\<forall>part_id. m_rcNotified g part_id
             \<longrightarrow> m_rcNotified (snd (rollCallParticles tp g)) part_id)
       \<and> rc_once (snd (iteration cfg W g))
       \<and> (\<forall>r. simulation_loop cfg W g = Some r \<longrightarrow> rc_once (snd r))"
proof -
  obtain x g' where r: "rollCallParticles tp g = (x, g')" by (cases "rollCallParticles tp g")
  from rollCallParticles_once [OF r] assms r
  have "rc_once (snd (rollCallParticles tp g))"
    and "\<forall>part_id. m_rcNotified g part_id \<longrightarrow> m_rcNotified (snd (rollCallParticles tp g)) part_id"
    by simp_all
  moreover have "rc_once (snd (iteration cfg W g))" using assms by (rule iteration_once)
  moreover have "\<forall>r. simulation_loop cfg W g = Some r \<longrightarrow> rc_once (snd r)"
    using assms by (blast intro: simulation_loop_once)
  ultimately show ?thesis by blast
qed

theorem roll_call_warns_once_witness:
  "rc_once duplicated_gdata
   \<and> console (snd (rollCallParticles example_topology duplicated_gdata))
       = [RollCallDouble 0 0 0 1, RollCallMissing 0 1, Line ''Recap of devices after roll call:'',
          RecapDevice 0 0 0, RecapDevice 1 0 0]
   \<and> rc_once (snd (rollCallParticles example_topology duplicated_gdata))
   \<and> m_rcNotified (snd (rollCallParticles example_topology duplicated_gdata)) 0
   \<and> m_rcNotified (snd (rollCallParticles example_topology duplicated_gdata)) 1
   \<and> console (snd (rollCallParticles example_topology
                     (snd (rollCallParticles example_topology duplicated_gdata))))
       = console (snd (rollCallParticles example_topology duplicated_gdata))"
proof -
  have a: "rc_once duplicated_gdata"
    by (simp add: rc_once_def duplicated_gdata_def example_gdata_def)
  from roll_call_warns_once [OF a, of example_topology example_config healthy_workers]
  have b: "rc_once (snd (rollCallParticles example_topology duplicated_gdata))" by simp
  then have "list_all (m_rcNotified (snd (rollCallParticles example_topology duplicated_gdata)))
               [0, 1]"
    by (simp add: rc_once_def dup_first)
  with a b show ?thesis by (simp add: dup_first dup_second)
qed

end
